theory Spec2Isabelle
  imports Main "HOL-Library.List_Lexorder" "HOL-Library.AList"
begin

section \<open>Strings and character classes of the host language\<close>

text \<open>
  The program is TypeScript: a string is a sequence of UTF-16 code units. A code unit is
  modelled as a natural number (below 65536 in a real string) and a string as a list of
  them. \<open>js\<close> turns an Isabelle literal into such a string, so that \<open>js ''abc''\<close> is the
  program's \<^verbatim>\<open>"abc"\<close>.
\<close>

type_synonym jsstring = "nat list"

definition js :: "string \<Rightarrow> jsstring" where
  "js = map of_char"

text \<open>
  The classes the regular expressions of \<^verbatim>\<open>alembicTree.ts\<close> use. \<^verbatim>\<open>\s\<close> is the
  language's WhiteSpace and LineTerminator productions together; \<^verbatim>\<open>.\<close> (no \<^verbatim>\<open>s\<close> flag) is
  every code unit but a line terminator.
\<close>

definition isLineTerminator :: "nat \<Rightarrow> bool" where
  "isLineTerminator c = (c = 0x0A \<or> c = 0x0D \<or> c = 0x2028 \<or> c = 0x2029)"

definition isSpace :: "nat \<Rightarrow> bool" where
  "isSpace c = (c = 0x09 \<or> c = 0x0B \<or> c = 0x0C \<or> c = 0x20 \<or> c = 0xA0 \<or> c = 0x1680
     \<or> (0x2000 \<le> c \<and> c \<le> 0x200A) \<or> c = 0x202F \<or> c = 0x205F \<or> c = 0x3000
     \<or> c = 0xFEFF \<or> isLineTerminator c)"

definition isDot :: "nat \<Rightarrow> bool" where
  "isDot c = (\<not> isLineTerminator c)"

text \<open>\<^verbatim>\<open>['"]\<close>, \<^verbatim>\<open>[^'"]\<close>, \<^verbatim>\<open>[^=]\<close> and \<^verbatim>\<open>[0-9a-zA-Z_]\<close>.\<close>

definition isQuote :: "nat \<Rightarrow> bool" where
  "isQuote c = (c = 0x27 \<or> c = 0x22)"

definition notQuote :: "nat \<Rightarrow> bool" where
  "notQuote c = (\<not> isQuote c)"

definition notEquals :: "nat \<Rightarrow> bool" where
  "notEquals c = (c \<noteq> 0x3D)"

definition isWordChar :: "nat \<Rightarrow> bool" where
  "isWordChar c = ((0x30 \<le> c \<and> c \<le> 0x39) \<or> (0x61 \<le> c \<and> c \<le> 0x7A)
     \<or> (0x41 \<le> c \<and> c \<le> 0x5A) \<or> c = 0x5F)"

text \<open>
  Case folding of the \<^verbatim>\<open>i\<close> flag (without \<^verbatim>\<open>u\<close>): a code unit is compared through its
  upper-case form, and the language never folds a code unit from 128 upwards onto one
  below 128. Against the ASCII letters of \<^verbatim>\<open>None|null\<close>, the only pattern with the flag,
  that is ASCII case folding.
\<close>

definition canonicalize :: "nat \<Rightarrow> nat" where
  "canonicalize c = (if 0x61 \<le> c \<and> c \<le> 0x7A then c - 0x20 else c)"

text \<open>\<^verbatim>\<open>String.prototype.trim\<close> removes the same class as \<^verbatim>\<open>\s\<close> from both ends.\<close>

definition js_trim :: "jsstring \<Rightarrow> jsstring" where
  "js_trim s = rev (dropWhile isSpace (rev (dropWhile isSpace s)))"


section \<open>Regular expressions with the backtracking order of the language\<close>

text \<open>
  The regular expressions of the source are kept as data and run by one matcher, so that
  each pattern below can be read against its literal in the source. Only the constructs
  the source uses are there: a class of one code unit, the assertions \<^verbatim>\<open>^\<close> and \<^verbatim>\<open>$\<close>,
  sequence, alternative, the greedy star and one capturing group.
\<close>

datatype regex =
    Cls "nat \<Rightarrow> bool"
  | Bol
  | Eol
  | Eps
  | Seq regex regex
  | Alt regex regex
  | Star regex
  | Grp regex

definition OneOrMore :: "regex \<Rightarrow> regex" where
  "OneOrMore r = Seq r (Star r)"

definition Optional :: "regex \<Rightarrow> regex" where
  "Optional r = Alt r Eps"

fun Lit :: "jsstring \<Rightarrow> regex" where
  "Lit [] = Eps"
| "Lit (x # xs) = Seq (Cls (\<lambda>c. c = x)) (Lit xs)"

fun LitI :: "jsstring \<Rightarrow> regex" where
  "LitI [] = Eps"
| "LitI (x # xs) = Seq (Cls (\<lambda>c. canonicalize c = canonicalize x)) (LitI xs)"

text \<open>
  A matcher state is the text already passed (reversed, so that its head is the code
  unit before the current position), the text still ahead, and the text of group 1 when
  the group has been closed.

  \<open>ends m r st\<close> lists every state in which \<open>r\<close> can end when started in \<open>st\<close>, in the
  order in which a backtracking matcher tries them: the left alternative before the right
  one, one more iteration of a star before leaving it. The head of the list is what the
  matcher of the language returns. \<open>m\<close> is the \<^verbatim>\<open>m\<close> flag: with it \<^verbatim>\<open>^\<close> and \<^verbatim>\<open>$\<close> also
  hold after and before a line terminator. An iteration of a star that consumes nothing
  is rejected, as the language does.
\<close>

type_synonym mstate = "jsstring \<times> jsstring \<times> jsstring option"

function (sequential) ends :: "bool \<Rightarrow> regex \<Rightarrow> mstate \<Rightarrow> mstate list" where
  "ends m (Cls p) (pre, [], c) = []"
| "ends m (Cls p) (pre, x # suf, c) = (if p x then [(x # pre, suf, c)] else [])"
| "ends m Bol (pre, suf, c) =
     (if pre = [] \<or> (m \<and> isLineTerminator (hd pre)) then [(pre, suf, c)] else [])"
| "ends m Eol (pre, suf, c) =
     (if suf = [] \<or> (m \<and> isLineTerminator (hd suf)) then [(pre, suf, c)] else [])"
| "ends m Eps st = [st]"
| "ends m (Seq r1 r2) st = concat (map (ends m r2) (ends m r1 st))"
| "ends m (Alt r1 r2) st = ends m r1 st @ ends m r2 st"
| "ends m (Star r) (pre, suf, c) =
     concat (map (ends m (Star r))
       (filter (\<lambda>(pre', suf', c'). length suf' < length suf) (ends m r (pre, suf, c))))
     @ [(pre, suf, c)]"
| "ends m (Grp r) (pre, suf, c) =
     map (\<lambda>(pre', suf', c'). (pre', suf', Some (take (length suf - length suf') suf)))
       (ends m r (pre, suf, c))"
  by pat_completeness auto
termination
  by (relation "inv_image (measure size <*lex*> measure length) (\<lambda>(m, r, pre, suf, c). (r, suf))")
     auto

text \<open>
  \<open>regexExec\<close> is the language's \<^verbatim>\<open>RegExpBuiltinExec\<close>: it tries the pattern at the current
  position, then one code unit further, up to the end of the text. It returns the passed
  text at the start of the match and the state at its end.
\<close>

fun regexExec :: "bool \<Rightarrow> regex \<Rightarrow> jsstring \<Rightarrow> jsstring \<Rightarrow> (jsstring \<times> mstate) option" where
  "regexExec m r pre [] =
     (case ends m r (pre, [], None) of [] \<Rightarrow> None | st # _ \<Rightarrow> Some (pre, st))"
| "regexExec m r pre (x # suf) =
     (case ends m r (pre, x # suf, None) of
        [] \<Rightarrow> regexExec m r (x # pre) suf
      | st # _ \<Rightarrow> Some (pre, st))"

text \<open>\<^verbatim>\<open>re.test(s)\<close>, and group 1 of \<^verbatim>\<open>s.match(re)\<close> for a pattern without the \<^verbatim>\<open>g\<close> flag.\<close>

definition js_test :: "bool \<Rightarrow> regex \<Rightarrow> jsstring \<Rightarrow> bool" where
  "js_test m r s = (regexExec m r [] s \<noteq> None)"

definition js_match :: "bool \<Rightarrow> regex \<Rightarrow> jsstring \<Rightarrow> jsstring option" where
  "js_match m r s = Option.bind (regexExec m r [] s) (\<lambda>(pre0, pre1, suf1, g). g)"

section \<open>Global patterns: \<^verbatim>\<open>replace\<close> and \<^verbatim>\<open>matchAll\<close>\<close>

text \<open>
  The star's equation unfolds itself, so it is used only where it is named. A match
  consumes a piece of the text ahead and moves it, reversed, onto the passed text; this
  is what makes the loop over all matches end.
\<close>

declare ends.simps(8) [simp del]

lemma ends_split:
  "(pre', suf', c') \<in> set (ends m r (pre, suf, c)) \<Longrightarrow> \<exists>w. suf = w @ suf' \<and> pre' = rev w @ pre"
proof (induction m r "(pre, suf, c)" arbitrary: pre suf c pre' suf' c' rule: ends.induct)
  case (6 m r1 r2)
  then obtain p1 s1 c1 where a: "(p1, s1, c1) \<in> set (ends m r1 (pre, suf, c))"
    and b: "(pre', suf', c') \<in> set (ends m r2 (p1, s1, c1))"
    by auto
  from "6.hyps"(1)[OF a] obtain w1 where w1: "suf = w1 @ s1" "p1 = rev w1 @ pre" by blast
  from "6.hyps"(2)[OF a b] obtain w2 where w2: "s1 = w2 @ suf'" "pre' = rev w2 @ p1" by blast
  show ?case using w1 w2 by (intro exI[of _ "w1 @ w2"]) simp
next
  case (8 m r pre suf c)
  from "8.prems" consider (stop) "(pre', suf', c') = (pre, suf, c)"
    | (iter) p1 s1 c1 where "(p1, s1, c1) \<in> set (ends m r (pre, suf, c))" "length s1 < length suf"
        "(pre', suf', c') \<in> set (ends m (Star r) (p1, s1, c1))"
    by (subst (asm) ends.simps(8)) auto
  then show ?case
  proof cases
    case stop
    then show ?thesis by simp
  next
    case iter
    from "8.hyps"(1)[OF iter(1)] obtain w1 where w1: "suf = w1 @ s1" "p1 = rev w1 @ pre" by blast
    have "(p1, s1, c1) \<in> set (filter (\<lambda>(pre', suf', c'). length suf' < length suf) (ends m r (pre, suf, c)))"
      using iter by simp
    from "8.hyps"(2)[OF this iter(3)] obtain w2 where w2: "s1 = w2 @ suf'" "pre' = rev w2 @ p1" by blast
    show ?thesis using w1 w2 by (intro exI[of _ "w1 @ w2"]) simp
  qed
qed (auto split: if_splits)

lemma regexExec_split:
  "regexExec m r pre suf = Some (pre0, pre1, suf1, g) \<Longrightarrow>
     \<exists>u w. suf = u @ w @ suf1 \<and> pre0 = rev u @ pre \<and> pre1 = rev w @ pre0"
proof (induction suf arbitrary: pre)
  case Nil
  then obtain sts where e: "ends m r (pre, [], None) = (pre1, suf1, g) # sts" and p: "pre0 = pre"
    by (auto split: list.splits)
  then have "(pre1, suf1, g) \<in> set (ends m r (pre, [], None))" by simp
  from ends_split[OF this] p show ?case by auto
next
  case (Cons x suf)
  show ?case
  proof (cases "ends m r (pre, x # suf, None)")
    case Nil
    with Cons.prems have "regexExec m r (x # pre) suf = Some (pre0, pre1, suf1, g)" by simp
    from Cons.IH[OF this] obtain u w where "suf = u @ w @ suf1" "pre0 = rev u @ x # pre" "pre1 = rev w @ pre0"
      by blast
    then show ?thesis by (intro exI[of _ "x # u"] exI[of _ w]) simp
  next
    case (Cons st sts)
    with Cons.prems have st: "st = (pre1, suf1, g)" and p: "pre0 = pre" by auto
    with Cons have "(pre1, suf1, g) \<in> set (ends m r (pre, x # suf, None))" by simp
    from ends_split[OF this] p show ?thesis by (metis append_Nil rev.simps(1))
  qed
qed

text \<open>
  A pattern with the \<^verbatim>\<open>g\<close> flag is run again from the end of each match. After a match
  of the empty string the language moves on by one code unit, which then belongs to the
  text between matches. \<open>scanGlobal\<close> returns, for every match in turn, the text between
  the previous match and this one, the matched text and its group 1, and at last the text
  after the last match.
\<close>

function scanGlobal :: "bool \<Rightarrow> regex \<Rightarrow> jsstring \<Rightarrow> jsstring \<Rightarrow> jsstring
    \<Rightarrow> (jsstring \<times> jsstring \<times> jsstring option) list \<times> jsstring" where
  "scanGlobal m r gap pre suf =
     (case regexExec m r pre suf of
        None \<Rightarrow> ([], gap @ suf)
      | Some (pre0, pre1, suf1, g) \<Rightarrow>
          (let skipped = take (length pre0 - length pre) suf;
               matched = rev (take (length pre1 - length pre0) pre1)
           in if matched \<noteq> []
              then (let (ms, tailText) = scanGlobal m r [] pre1 suf1
                    in ((gap @ skipped, matched, g) # ms, tailText))
              else (case suf1 of
                      [] \<Rightarrow> ([(gap @ skipped, matched, g)], [])
                    | x # xs \<Rightarrow>
                        (let (ms, tailText) = scanGlobal m r [x] (x # pre1) xs
                         in ((gap @ skipped, matched, g) # ms, tailText)))))"
  by pat_completeness auto
termination
proof (relation "measure (\<lambda>(m, r, gap, pre, suf). length suf)", goal_cases)
  case 1
  show ?case by simp
next
  case (2 m r gap pre suf x2 pre0 y pre1 ya suf1 g skipped matched)
  then have ex: "regexExec m r pre suf = Some (pre0, pre1, suf1, g)" by simp
  from regexExec_split[OF ex] obtain u w where s: "suf = u @ w @ suf1" "pre0 = rev u @ pre" "pre1 = rev w @ pre0"
    by blast
  from 2 s have "w \<noteq> []" by auto
  with s show ?case by simp
next
  case (3 m r gap pre suf x2 pre0 y pre1 ya suf1 g skipped matched x xs)
  then have ex: "regexExec m r pre suf = Some (pre0, pre1, suf1, g)" by simp
  from regexExec_split[OF ex] obtain u w where s: "suf = u @ w @ suf1" by blast
  with 3 show ?case by simp
qed

text \<open>\<^verbatim>\<open>s.replace(re, rep)\<close> and the groups 1 of \<^verbatim>\<open>[...s.matchAll(re)]\<close>, for a global pattern.\<close>

definition js_replace :: "bool \<Rightarrow> regex \<Rightarrow> jsstring \<Rightarrow> jsstring \<Rightarrow> jsstring" where
  "js_replace m r rep s =
     (let (ms, tailText) = scanGlobal m r [] [] s
      in concat (map (\<lambda>(gap, matched, g). gap @ rep) ms) @ tailText)"

definition js_matchAll :: "bool \<Rightarrow> regex \<Rightarrow> jsstring \<Rightarrow> jsstring option list" where
  "js_matchAll m r s = map (\<lambda>(gap, matched, g). g) (fst (scanGlobal m r [] [] s))"


section \<open>The declaration parser (\<^verbatim>\<open>alembicTree.ts\<close>, lines 20 to 88)\<close>

record MigrationNode =
  revision :: jsstring
  downRevisions :: "jsstring list"
  filePath :: jsstring
  label :: jsstring

text \<open>\<^verbatim>\<open>/\s+#.*$/g\<close> and \<^verbatim>\<open>/\s+/g\<close>.\<close>

definition commentRe :: regex where
  "commentRe = Seq (OneOrMore (Cls isSpace)) (Seq (Lit (js ''#'')) (Seq (Star (Cls isDot)) Eol))"

definition spacesRe :: regex where
  "spacesRe = OneOrMore (Cls isSpace)"

definition stripInlineComment :: "jsstring \<Rightarrow> jsstring" where
  "stripInlineComment s = js_trim (js_replace False commentRe [] s)"

definition normalizeRhs :: "jsstring \<Rightarrow> jsstring" where
  "normalizeRhs rhs = js_trim (js_replace False spacesRe (js '' '') (stripInlineComment rhs))"

text \<open>
  \<^verbatim>\<open>/^(None|null)$/i\<close>, \<^verbatim>\<open>/^['"]([^'"]+)['"]$/\<close>, \<^verbatim>\<open>/['"]([^'"]+)['"]/g\<close>,
  \<^verbatim>\<open>/^[0-9a-zA-Z_]+$/\<close> and \<^verbatim>\<open>/^['"]|['"]$/g\<close>.
\<close>

definition noneRe :: regex where
  "noneRe = Seq Bol (Seq (Grp (Alt (LitI (js ''None'')) (LitI (js ''null'')))) Eol)"

definition quotedRe :: regex where
  "quotedRe = Seq Bol (Seq (Cls isQuote) (Seq (Grp (OneOrMore (Cls notQuote))) (Seq (Cls isQuote) Eol)))"

definition tokenRe :: regex where
  "tokenRe = Seq (Cls isQuote) (Seq (Grp (OneOrMore (Cls notQuote))) (Cls isQuote))"

definition bareRe :: regex where
  "bareRe = Seq Bol (Seq (OneOrMore (Cls isWordChar)) Eol)"

definition edgeQuoteRe :: regex where
  "edgeQuoteRe = Alt (Seq Bol (Cls isQuote)) (Seq (Cls isQuote) Eol)"

text \<open>
  \<open>raw\<close> is \<^verbatim>\<open>string | null\<close>; \<^verbatim>\<open>!raw\<close> holds of \<^verbatim>\<open>null\<close> and of the empty string. Group 1
  is part of every match of \<open>quotedRe\<close> and of \<open>tokenRe\<close>, so that \<^verbatim>\<open>m[1]\<close> is a string
  wherever the source reads it.
\<close>

definition asArrayDownRevision :: "jsstring option \<Rightarrow> jsstring list" where
  "asArrayDownRevision raw =
     (case raw of
        None \<Rightarrow> []
      | Some rawText \<Rightarrow>
          if rawText = [] then []
          else
            (let normalized = normalizeRhs rawText
             in if js_test False noneRe normalized then []
                else
                  (case js_match False quotedRe normalized of
                     Some inner \<Rightarrow> [inner]
                   | None \<Rightarrow>
                       (let tokens = List.map_filter id (js_matchAll False tokenRe normalized)
                        in if length tokens > 0 then tokens
                           else if js_test False bareRe normalized then [normalized]
                           else []))))"

definition parseRevision :: "jsstring \<Rightarrow> jsstring" where
  "parseRevision raw =
     (let normalized = normalizeRhs raw
      in case js_match False quotedRe normalized of
           Some inner \<Rightarrow> inner
         | None \<Rightarrow> js_trim (js_replace False edgeQuoteRe [] normalized))"

text \<open>
  \<^verbatim>\<open>/^\s*revision\s*(?::\s*[^=]+)?\s*=\s*(.+)\s*$/m\<close> and the same pattern for
  \<^verbatim>\<open>down_revision\<close>.
\<close>

definition declRe :: "jsstring \<Rightarrow> regex" where
  "declRe name =
     Seq Bol (Seq (Star (Cls isSpace)) (Seq (Lit name) (Seq (Star (Cls isSpace))
       (Seq (Optional (Seq (Lit (js '':'')) (Seq (Star (Cls isSpace)) (OneOrMore (Cls notEquals)))))
         (Seq (Star (Cls isSpace)) (Seq (Lit (js ''='')) (Seq (Star (Cls isSpace))
           (Seq (Grp (OneOrMore (Cls isDot))) (Seq (Star (Cls isSpace)) Eol)))))))))"

definition revisionRe :: regex where
  "revisionRe = declRe (js ''revision'')"

definition downRevisionRe :: regex where
  "downRevisionRe = declRe (js ''down_revision'')"

text \<open>
  \<open>baseOf\<close> stands for \<^verbatim>\<open>path.basename(filePath, path.extname(filePath))\<close> of the
  platform's library; it only reaches the label. The result \<^verbatim>\<open>null\<close> is \<open>None\<close>.
\<close>

definition parseMigrationFile :: "(jsstring \<Rightarrow> jsstring) \<Rightarrow> jsstring \<Rightarrow> jsstring \<Rightarrow> MigrationNode option" where
  "parseMigrationFile baseOf content path =
     (let revMatch = js_match True revisionRe content;
          downMatch = js_match True downRevisionRe content
      in case revMatch of
           None \<Rightarrow> None
         | Some revText \<Rightarrow>
             (let rev = parseRevision revText;
                  downs = asArrayDownRevision downMatch;
                  base = baseOf path
              in Some \<lparr>revision = rev, downRevisions = downs, filePath = path,
                        label = rev @ js '' ('' @ base @ js '')''\<rparr>))"

text \<open>
  The scan of \<^verbatim>\<open>rebuildGraph\<close> (lines 196 to 209): every file that was read is parsed, a
  file that could not be read (\<open>None\<close>) or that yields \<^verbatim>\<open>null\<close> is logged and left out.
\<close>

definition collectParsed :: "(jsstring \<Rightarrow> jsstring) \<Rightarrow> (jsstring \<times> jsstring option) list \<Rightarrow> MigrationNode list" where
  "collectParsed baseOf files =
     List.map_filter
       (\<lambda>(fsPath, doc). case doc of None \<Rightarrow> None | Some text \<Rightarrow> parseMigrationFile baseOf text fsPath)
       files"


section \<open>The graph engine (\<^verbatim>\<open>alembicTree.ts\<close>, lines 115 to 270)\<close>

text \<open>
  A \<^verbatim>\<open>Map\<close> of the language keeps its entries in the order of first insertion, and
  \<^verbatim>\<open>set\<close> on a key already there replaces the value in place: it is an association
  list with \<open>AList.update\<close> for \<^verbatim>\<open>set\<close>, \<open>map_of\<close> for \<^verbatim>\<open>get\<close>, \<open>map fst\<close> for
  \<^verbatim>\<open>keys()\<close> and \<open>map snd\<close> for \<^verbatim>\<open>values()\<close>. A \<^verbatim>\<open>Set\<close> is the list of its elements in
  the order of insertion. \<^verbatim>\<open>sort()\<close> without a comparator orders strings by their code
  units, which is the lexicographic order of lists.
\<close>

definition Set_add :: "'a \<Rightarrow> 'a list \<Rightarrow> 'a list" where
  "Set_add x s = (if x \<in> set s then s else s @ [x])"

definition uniq :: "'a list \<Rightarrow> 'a list" where
  "uniq arr = foldl (\<lambda>s x. Set_add x s) [] arr"

record 'item provider =
  nodesByRevision :: "(jsstring \<times> MigrationNode) list"
  childrenByParent :: "(jsstring \<times> jsstring list) list"
  itemCache :: "(jsstring \<times> 'item) list"
  bases :: "jsstring list"
  heads :: "jsstring list"
  missingParents :: "jsstring list"

text \<open>Lines 211 to 213: the index pass.\<close>

definition indexNodes :: "MigrationNode list \<Rightarrow> (jsstring \<times> MigrationNode) list" where
  "indexNodes parsed = foldl (\<lambda>m n. AList.update (revision n) n m) [] parsed"

text \<open>Lines 215 to 221: the adjacency pass, over every parsed node.\<close>

definition addChild :: "jsstring \<Rightarrow> (jsstring \<times> jsstring list) list \<Rightarrow> jsstring \<Rightarrow> (jsstring \<times> jsstring list) list" where
  "addChild child m parent =
     (let existing = (case map_of m parent of None \<Rightarrow> [] | Some e \<Rightarrow> e)
      in AList.update parent (existing @ [child]) m)"

definition indexChildren :: "MigrationNode list \<Rightarrow> (jsstring \<times> jsstring list) list" where
  "indexChildren parsed = foldl (\<lambda>m n. foldl (addChild (revision n)) m (downRevisions n)) [] parsed"

text \<open>Lines 223 to 225: every child list is de-duplicated and sorted, in place.\<close>

definition sortChildren :: "(jsstring \<times> jsstring list) list \<Rightarrow> (jsstring \<times> jsstring list) list" where
  "sortChildren m = foldl (\<lambda>acc (k, v). AList.update k (sort (uniq v)) acc) m m"

text \<open>
  Lines 228 to 238: the parents referenced by the indexed nodes, and those of them that
  are no key of the index.
\<close>

definition scanParents :: "(jsstring \<times> MigrationNode) list \<Rightarrow> jsstring list \<times> jsstring list" where
  "scanParents nodesById =
     foldl (\<lambda>acc n.
         foldl (\<lambda>(referencedAsParent, missingSet) p.
             (Set_add p referencedAsParent,
              if p \<in> set (map fst nodesById) then missingSet else Set_add p missingSet))
           acc (downRevisions n))
       ([], []) (map snd nodesById)"

text \<open>
  \<open>rebuildGraph\<close> from the parsed nodes on (lines 166 to 171 and 211 to 247); the scan
  before is \<open>collectParsed\<close>. Every field of the provider is replaced.
\<close>

definition rebuildGraph :: "MigrationNode list \<Rightarrow> 'item provider \<Rightarrow> 'item provider" where
  "rebuildGraph parsed this =
     (let nodesById = indexNodes parsed;
          children = sortChildren (indexChildren parsed);
          (referencedAsParent, missingSet) = scanParents nodesById
      in this\<lparr>itemCache := [],
              nodesByRevision := nodesById,
              childrenByParent := children,
              bases := sort (map revision (filter (\<lambda>n. length (downRevisions n) = 0) (map snd nodesById))),
              heads := sort (filter (\<lambda>r. r \<notin> set referencedAsParent) (map fst nodesById)),
              missingParents := sort missingSet\<rparr>)"

text \<open>
  \<open>getGraphData\<close> (lines 255 to 270). An edge is the record \<^verbatim>\<open>{from, to}\<close>; the two sets
  of the result are named \<open>baseSet\<close> and \<open>headSet\<close> here.
\<close>

record edge =
  edgeFrom :: jsstring
  edgeTo :: jsstring

record GraphDataResult =
  nodes :: "(jsstring \<times> MigrationNode) list"
  edges :: "edge list"
  baseSet :: "jsstring list"
  headSet :: "jsstring list"

definition getGraphData :: "'item provider \<Rightarrow> GraphDataResult" where
  "getGraphData this =
     \<lparr>nodes = nodesByRevision this,
      edges = concat (map (\<lambda>n. map (\<lambda>parent. \<lparr>edgeFrom = parent, edgeTo = revision n\<rparr>) (downRevisions n))
                (map snd (nodesByRevision this))),
      baseSet = uniq (bases this),
      headSet = uniq (heads this)\<rparr>"

text \<open>
  The consumer of the edge list, \<^verbatim>\<open>openMigrationGraphWebview\<close> (\<^verbatim>\<open>graphView.ts\<close>, lines 79
  to 91): an edge with an end that is no key of \<^verbatim>\<open>graph.nodes\<close> is skipped.
\<close>

definition renderedEdges :: "GraphDataResult \<Rightarrow> edge list" where
  "renderedEdges graph =
     filter (\<lambda>e. edgeFrom e \<in> set (map fst (nodes graph)) \<and> edgeTo e \<in> set (map fst (nodes graph)))
       (edges graph)"

text \<open>The provider as its constructor leaves it (lines 121 to 127).\<close>

definition newProvider :: "unit provider" where
  "newProvider = \<lparr>nodesByRevision = [], childrenByParent = [], itemCache = [], bases = [],
     heads = [], missingParents = []\<rparr>"

text \<open>
  \<^verbatim>\<open>this.childrenByParent.get(rev) ?? []\<close>, the children of a revision as the tree view
  reads them (lines 156, 346, 366 and 383).
\<close>

definition childrenOf :: "(jsstring \<times> jsstring list) list \<Rightarrow> jsstring \<Rightarrow> jsstring list" where
  "childrenOf m p = (case map_of m p of None \<Rightarrow> [] | Some e \<Rightarrow> e)"

section \<open>What a pattern matches\<close>

text \<open>
  The declarative reading of a pattern: \<open>matches m r pre w suf c c'\<close> holds when \<open>r\<close> can
  consume exactly \<open>w\<close> between the passed text \<open>pre\<close> (reversed) and the remaining text
  \<open>suf\<close>, turning the group text \<open>c\<close> into \<open>c'\<close>.
\<close>

inductive matches :: "bool \<Rightarrow> regex \<Rightarrow> jsstring \<Rightarrow> jsstring \<Rightarrow> jsstring
    \<Rightarrow> jsstring option \<Rightarrow> jsstring option \<Rightarrow> bool"
  for m :: bool where
    mCls: "p x \<Longrightarrow> matches m (Cls p) pre [x] suf c c"
  | mBol: "pre = [] \<or> (m \<and> isLineTerminator (hd pre)) \<Longrightarrow> matches m Bol pre [] suf c c"
  | mEol: "suf = [] \<or> (m \<and> isLineTerminator (hd suf)) \<Longrightarrow> matches m Eol pre [] suf c c"
  | mEps: "matches m Eps pre [] suf c c"
  | mSeq: "matches m r1 pre w1 (w2 @ suf) c c1 \<Longrightarrow> matches m r2 (rev w1 @ pre) w2 suf c1 c2
           \<Longrightarrow> matches m (Seq r1 r2) pre (w1 @ w2) suf c c2"
  | mAltL: "matches m r1 pre w suf c c' \<Longrightarrow> matches m (Alt r1 r2) pre w suf c c'"
  | mAltR: "matches m r2 pre w suf c c' \<Longrightarrow> matches m (Alt r1 r2) pre w suf c c'"
  | mStarStop: "matches m (Star r) pre [] suf c c"
  | mStarStep: "w1 \<noteq> [] \<Longrightarrow> matches m r pre w1 (w2 @ suf) c c1
           \<Longrightarrow> matches m (Star r) (rev w1 @ pre) w2 suf c1 c2
           \<Longrightarrow> matches m (Star r) pre (w1 @ w2) suf c c2"
  | mGrp: "matches m r pre w suf c c1 \<Longrightarrow> matches m (Grp r) pre w suf c (Some w)"

lemma ends_sound:
  "(pre', suf', c') \<in> set (ends m r (pre, suf, c)) \<Longrightarrow>
     \<exists>w. suf = w @ suf' \<and> pre' = rev w @ pre \<and> matches m r pre w suf' c c'"
proof (induction m r "(pre, suf, c)" arbitrary: pre suf c pre' suf' c' rule: ends.induct)
  case (1 m p pre c)
  then show ?case by simp
next
  case (2 m p pre x suf c)
  then show ?case by (auto split: if_splits intro: mCls)
next
  case (3 m pre suf c)
  then show ?case by (auto split: if_splits intro: mBol)
next
  case (4 m pre suf c)
  then show ?case by (auto split: if_splits intro: mEol)
next
  case (5 m)
  then show ?case by (auto intro: mEps)
next
  case (6 m r1 r2)
  then obtain p1 s1 c1 where a: "(p1, s1, c1) \<in> set (ends m r1 (pre, suf, c))"
    and b: "(pre', suf', c') \<in> set (ends m r2 (p1, s1, c1))"
    by auto
  from "6.hyps"(1)[OF a] obtain w1 where w1: "suf = w1 @ s1" "p1 = rev w1 @ pre" "matches m r1 pre w1 s1 c c1"
    by blast
  from "6.hyps"(2)[OF a b] obtain w2 where w2: "s1 = w2 @ suf'" "pre' = rev w2 @ p1" "matches m r2 p1 w2 suf' c1 c'"
    by blast
  have "matches m (Seq r1 r2) pre (w1 @ w2) suf' c c'"
    using w1 w2 by (auto intro: mSeq)
  then show ?case using w1 w2 by (intro exI[of _ "w1 @ w2"]) simp
next
  case (7 m r1 r2)
  from "7.prems" consider (left) "(pre', suf', c') \<in> set (ends m r1 (pre, suf, c))"
    | (right) "(pre', suf', c') \<in> set (ends m r2 (pre, suf, c))"
    by auto
  then show ?case
  proof cases
    case left
    from "7.hyps"(1)[OF left] show ?thesis by (blast intro: mAltL)
  next
    case right
    from "7.hyps"(2)[OF right] show ?thesis by (blast intro: mAltR)
  qed
next
  case (8 m r pre suf c)
  from "8.prems" consider (stop) "(pre', suf', c') = (pre, suf, c)"
    | (iter) p1 s1 c1 where "(p1, s1, c1) \<in> set (ends m r (pre, suf, c))" "length s1 < length suf"
        "(pre', suf', c') \<in> set (ends m (Star r) (p1, s1, c1))"
    by (subst (asm) ends.simps(8)) auto
  then show ?case
  proof cases
    case stop
    then show ?thesis by (auto intro: mStarStop)
  next
    case iter
    from "8.hyps"(1)[OF iter(1)] obtain w1 where w1: "suf = w1 @ s1" "p1 = rev w1 @ pre" "matches m r pre w1 s1 c c1"
      by blast
    have "(p1, s1, c1) \<in> set (filter (\<lambda>(pre', suf', c'). length suf' < length suf) (ends m r (pre, suf, c)))"
      using iter by simp
    from "8.hyps"(2)[OF this iter(3)] obtain w2 where w2: "s1 = w2 @ suf'" "pre' = rev w2 @ p1"
      "matches m (Star r) p1 w2 suf' c1 c'" by blast
    from iter(2) w1 have "w1 \<noteq> []" by auto
    then have "matches m (Star r) pre (w1 @ w2) suf' c c'"
      using w1 w2 by (auto intro: mStarStep)
    then show ?thesis using w1 w2 by (intro exI[of _ "w1 @ w2"]) simp
  qed
next
  case (9 m r pre suf c)
  then obtain c1 where a: "(pre', suf', c1) \<in> set (ends m r (pre, suf, c))"
    and c': "c' = Some (take (length suf - length suf') suf)"
    by auto
  from "9.hyps"[OF a] obtain w where w: "suf = w @ suf'" "pre' = rev w @ pre" "matches m r pre w suf' c c1"
    by blast
  with c' have "c' = Some w" by simp
  with w show ?case by (auto intro: mGrp)
qed

lemma ends_complete:
  "matches m r pre w suf c c' \<Longrightarrow> (rev w @ pre, suf, c') \<in> set (ends m r (pre, w @ suf, c))"
proof (induction rule: matches.induct)
  case (mStarStep w1 r pre w2 suf c c1 c2)
  have "(rev w1 @ pre, w2 @ suf, c1)
      \<in> set (filter (\<lambda>(pre', suf', c'). length suf' < length ((w1 @ w2) @ suf)) (ends m r (pre, (w1 @ w2) @ suf, c)))"
    using mStarStep by simp
  with mStarStep.IH(2) show ?case
    by (subst ends.simps(8)) force
next
  case (mStarStop r pre suf c)
  show ?case by (subst ends.simps(8)) simp
next
  case (mSeq r1 pre w1 w2 suf c c1 r2 c2)
  then show ?case by force
next
  case (mGrp r pre w suf c c1)
  then show ?case by force
qed auto

theorem ends_matches:
  "(pre', suf', c') \<in> set (ends m r (pre, suf, c)) \<longleftrightarrow>
     (\<exists>w. suf = w @ suf' \<and> pre' = rev w @ pre \<and> matches m r pre w suf' c c')"
  using ends_sound ends_complete by blast

lemma matches_Cls [simp]: "matches m (Cls p) pre w suf c c' \<longleftrightarrow> (\<exists>x. w = [x] \<and> p x) \<and> c' = c"
  by (subst matches.simps) auto

lemma matches_Bol [simp]:
  "matches m Bol pre w suf c c' \<longleftrightarrow> w = [] \<and> (pre = [] \<or> (m \<and> isLineTerminator (hd pre))) \<and> c' = c"
  by (subst matches.simps) auto

lemma matches_Eol [simp]:
  "matches m Eol pre w suf c c' \<longleftrightarrow> w = [] \<and> (suf = [] \<or> (m \<and> isLineTerminator (hd suf))) \<and> c' = c"
  by (subst matches.simps) auto

lemma matches_Eps [simp]: "matches m Eps pre w suf c c' \<longleftrightarrow> w = [] \<and> c' = c"
  by (subst matches.simps) auto

lemma matches_Seq:
  "matches m (Seq r1 r2) pre w suf c c' \<longleftrightarrow>
     (\<exists>w1 w2 c1. w = w1 @ w2 \<and> matches m r1 pre w1 (w2 @ suf) c c1 \<and> matches m r2 (rev w1 @ pre) w2 suf c1 c')"
  by (subst matches.simps) auto

lemma matches_Alt:
  "matches m (Alt r1 r2) pre w suf c c' \<longleftrightarrow> matches m r1 pre w suf c c' \<or> matches m r2 pre w suf c c'"
  by (subst matches.simps) auto

lemma matches_Grp:
  "matches m (Grp r) pre w suf c c' \<longleftrightarrow> (\<exists>c1. matches m r pre w suf c c1) \<and> c' = Some w"
  by (subst matches.simps) auto

lemma matches_Star_Cls_only:
  "matches m r pre w suf c c' \<Longrightarrow> r = Star (Cls p) \<Longrightarrow> list_all p w \<and> c' = c"
  by (induction rule: matches.induct) auto

lemma matches_Star_Cls_all:
  "list_all p w \<Longrightarrow> matches m (Star (Cls p)) pre w suf c c"
proof (induction w arbitrary: pre)
  case Nil
  show ?case by (rule mStarStop)
next
  case (Cons x w)
  then have "matches m (Cls p) pre [x] (w @ suf) c c" and "matches m (Star (Cls p)) (rev [x] @ pre) w suf c c"
    by simp_all
  with mStarStep[of "[x]" m "Cls p" pre w suf c c c] show ?case by simp
qed

lemma matches_Star_Cls [simp]:
  "matches m (Star (Cls p)) pre w suf c c' \<longleftrightarrow> list_all p w \<and> c' = c"
  using matches_Star_Cls_only matches_Star_Cls_all by blast

lemma matches_Cls_Seq:
  "matches m (Seq (Cls p) r) pre w suf c c' \<longleftrightarrow>
     (\<exists>x xs. w = x # xs \<and> p x \<and> matches m r (x # pre) xs suf c c')"
proof
  assume "matches m (Seq (Cls p) r) pre w suf c c'"
  then show "\<exists>x xs. w = x # xs \<and> p x \<and> matches m r (x # pre) xs suf c c'"
    by (auto simp: matches_Seq)
next
  assume "\<exists>x xs. w = x # xs \<and> p x \<and> matches m r (x # pre) xs suf c c'"
  then obtain x xs where "w = [x] @ xs" "p x" "matches m r (rev [x] @ pre) xs suf c c'" by auto
  moreover from \<open>p x\<close> have "matches m (Cls p) pre [x] (xs @ suf) c c" by simp
  ultimately show "matches m (Seq (Cls p) r) pre w suf c c'"
    unfolding matches_Seq by blast
qed

lemma matches_OneOrMore_Cls [simp]:
  "matches m (OneOrMore (Cls p)) pre w suf c c' \<longleftrightarrow> w \<noteq> [] \<and> list_all p w \<and> c' = c"
  by (cases w) (auto simp: OneOrMore_def matches_Cls_Seq)

lemma matches_Optional:
  "matches m (Optional r) pre w suf c c' \<longleftrightarrow> matches m r pre w suf c c' \<or> (w = [] \<and> c' = c)"
  by (simp add: Optional_def matches_Alt)

lemma matches_Lit [simp]: "matches m (Lit s) pre w suf c c' \<longleftrightarrow> w = s \<and> c' = c"
  by (induction s arbitrary: pre w) (auto simp: matches_Cls_Seq)

lemma matches_LitI [simp]:
  "matches m (LitI s) pre w suf c c' \<longleftrightarrow> map canonicalize w = map canonicalize s \<and> c' = c"
  by (induction s arbitrary: pre w) (auto simp: matches_Cls_Seq)

lemma ends_head:
  "ends m r (pre, suf, c) = (pre', suf', c') # rest \<Longrightarrow>
     \<exists>w. suf = w @ suf' \<and> pre' = rev w @ pre \<and> matches m r pre w suf' c c'"
  by (rule ends_sound) simp

lemma ends_nonempty:
  "ends m r (pre, suf, c) \<noteq> [] \<longleftrightarrow> (\<exists>w suf' c'. suf = w @ suf' \<and> matches m r pre w suf' c c')"
proof
  assume "ends m r (pre, suf, c) \<noteq> []"
  then obtain pre' suf' c' rest where "ends m r (pre, suf, c) = (pre', suf', c') # rest"
    by (cases "ends m r (pre, suf, c)") auto
  from ends_head[OF this] show "\<exists>w suf' c'. suf = w @ suf' \<and> matches m r pre w suf' c c'"
    by blast
next
  assume "\<exists>w suf' c'. suf = w @ suf' \<and> matches m r pre w suf' c c'"
  then show "ends m r (pre, suf, c) \<noteq> []" by (auto dest: ends_complete)
qed

subsection \<open>Where the first match starts\<close>

lemma regexExec_None:
  "regexExec m r pre suf = None \<longleftrightarrow> (\<forall>u v. suf = u @ v \<longrightarrow> ends m r (rev u @ pre, v, None) = [])"
proof (induction suf arbitrary: pre)
  case Nil
  show ?case by (auto split: list.splits)
next
  case (Cons x suf)
  show ?case
  proof (cases "ends m r (pre, x # suf, None)")
    case Nil
    have "(\<forall>u v. x # suf = u @ v \<longrightarrow> ends m r (rev u @ pre, v, None) = [])
        \<longleftrightarrow> (\<forall>u v. suf = u @ v \<longrightarrow> ends m r (rev u @ x # pre, v, None) = [])"
      (is "?L \<longleftrightarrow> ?R")
    proof
      assume l: ?L
      show ?R
      proof (intro allI impI)
        fix u v assume "suf = u @ v"
        then have "x # suf = (x # u) @ v" by simp
        with l have "ends m r (rev (x # u) @ pre, v, None) = []" by blast
        then show "ends m r (rev u @ x # pre, v, None) = []" by simp
      qed
    next
      assume r: ?R
      show ?L
      proof (intro allI impI)
        fix u v assume uv: "x # suf = u @ v"
        show "ends m r (rev u @ pre, v, None) = []"
        proof (cases u)
          case Nil
          with uv \<open>ends m r (pre, x # suf, None) = []\<close> show ?thesis by simp
        next
          case (Cons y u')
          with uv have "suf = u' @ v" "y = x" by simp_all
          with r Cons show ?thesis by simp
        qed
      qed
    qed
    with Nil Cons.IH[of "x # pre"] show ?thesis by simp
  next
    case (Cons st sts)
    then have "ends m r (rev [] @ pre, x # suf, None) \<noteq> []" by simp
    then have "\<not> (\<forall>u v. x # suf = u @ v \<longrightarrow> ends m r (rev u @ pre, v, None) = [])"
      by (metis append_Nil)
    with Cons show ?thesis by simp
  qed
qed

lemma regexExec_Some:
  "regexExec m r pre suf = Some (pre0, st) \<Longrightarrow>
     \<exists>u v rest. suf = u @ v \<and> pre0 = rev u @ pre \<and> ends m r (pre0, v, None) = st # rest"
proof (induction suf arbitrary: pre)
  case Nil
  then show ?case by (auto split: list.splits)
next
  case (Cons x suf)
  show ?case
  proof (cases "ends m r (pre, x # suf, None)")
    case Nil
    with Cons.prems have "regexExec m r (x # pre) suf = Some (pre0, st)" by simp
    from Cons.IH[OF this] obtain u v rest where "suf = u @ v" "pre0 = rev u @ x # pre"
      "ends m r (pre0, v, None) = st # rest" by blast
    then show ?thesis by (intro exI[of _ "x # u"] exI[of _ v] exI[of _ rest]) simp
  next
    case (Cons st' sts)
    with Cons.prems have "st' = st" "pre0 = pre" by simp_all
    with Cons show ?thesis by (intro exI[of _ "[]"] exI[of _ "x # suf"] exI[of _ sts]) simp
  qed
qed

lemma regexExec_Bol_later: "pre \<noteq> [] \<Longrightarrow> regexExec False (Seq Bol r) pre suf = None"
  by (induction suf arbitrary: pre) auto

lemma regexExec_Bol_start:
  "regexExec False (Seq Bol r) [] suf =
     (case ends False r ([], suf, None) of [] \<Rightarrow> None | st # _ \<Rightarrow> Some ([], st))"
  by (cases suf) (auto simp: regexExec_Bol_later split: list.splits)

subsection \<open>One step of the loop over all matches\<close>

declare scanGlobal.simps [simp del]

lemma scanGlobal_end:
  "ends m r (pre, [], None) = [] \<Longrightarrow> scanGlobal m r gap pre [] = ([], gap)"
  by (simp add: scanGlobal.simps[of m r gap pre "[]"])

lemma scanGlobal_skip:
  assumes "ends m r (pre, x # xs, None) = []"
  shows "scanGlobal m r gap pre (x # xs) = scanGlobal m r (gap @ [x]) (x # pre) xs"
proof (cases "regexExec m r (x # pre) xs")
  case None
  with assms have "regexExec m r pre (x # xs) = None" by simp
  with None show ?thesis
    by (simp only: scanGlobal.simps[of m r gap pre "x # xs"]
          scanGlobal.simps[of m r "gap @ [x]" "x # pre" xs] option.case) simp
next
  case (Some a)
  obtain pre0 pre1 suf1 g where a: "a = (pre0, pre1, suf1, g)" by (cases a)
  from regexExec_split[OF Some[unfolded a]] obtain u w
    where "xs = u @ w @ suf1" "pre0 = rev u @ x # pre" "pre1 = rev w @ pre0" by blast
  then have len: "length pre0 - length pre = Suc (length u)" "length pre0 - Suc (length pre) = length u"
    by simp_all
  have ex: "regexExec m r pre (x # xs) = Some (pre0, pre1, suf1, g)"
    using assms Some a by simp
  show ?thesis
    apply (simp only: scanGlobal.simps[of m r gap pre "x # xs"]
          scanGlobal.simps[of m r "gap @ [x]" "x # pre" xs] ex Some a option.case prod.case)
    apply (simp add: len Let_def split: list.split)
    done
qed

lemma scanGlobal_match:
  assumes "ends m r (pre, suf, None) = (pre1, suf1, g) # rest" and "length suf1 < length suf"
  shows "\<exists>w. w \<noteq> [] \<and> suf = w @ suf1 \<and> pre1 = rev w @ pre
           \<and> scanGlobal m r gap pre suf =
               (let (ms, tailText) = scanGlobal m r [] pre1 suf1 in ((gap, w, g) # ms, tailText))"
proof -
  from ends_head[OF assms(1)] obtain w where w: "suf = w @ suf1" "pre1 = rev w @ pre" by blast
  with assms(2) have ne: "w \<noteq> []" by auto
  have ex: "regexExec m r pre suf = Some (pre, pre1, suf1, g)"
    using assms(1) by (cases suf) simp_all
  have "scanGlobal m r gap pre suf = (let (ms, tailText) = scanGlobal m r [] pre1 suf1 in ((gap, w, g) # ms, tailText))"
    apply (simp only: scanGlobal.simps[of m r gap pre suf] ex option.case prod.case Let_def)
    using ne w apply simp
    done
  with w ne show ?thesis by blast
qed

subsection \<open>The text that \<^verbatim>\<open>replace\<close> builds and the groups that \<^verbatim>\<open>matchAll\<close> lists\<close>

definition replaced :: "bool \<Rightarrow> regex \<Rightarrow> jsstring \<Rightarrow> jsstring \<Rightarrow> jsstring \<Rightarrow> jsstring \<Rightarrow> jsstring" where
  "replaced m r rep gap pre suf =
     (case scanGlobal m r gap pre suf of (ms, tailText) \<Rightarrow> concat (map (\<lambda>(gap, matched, g). gap @ rep) ms) @ tailText)"

definition groups :: "bool \<Rightarrow> regex \<Rightarrow> jsstring \<Rightarrow> jsstring \<Rightarrow> jsstring option list" where
  "groups m r pre suf = map (\<lambda>(gap, matched, g). g) (fst (scanGlobal m r [] pre suf))"

lemma js_replace_replaced: "js_replace m r rep s = replaced m r rep [] [] s"
  by (simp add: js_replace_def replaced_def)

lemma js_matchAll_groups: "js_matchAll m r s = groups m r [] s"
  by (simp add: js_matchAll_def groups_def)

lemma replaced_end: "ends m r (pre, [], None) = [] \<Longrightarrow> replaced m r rep gap pre [] = gap"
  by (simp add: replaced_def scanGlobal_end)

lemma replaced_skip:
  "ends m r (pre, x # xs, None) = [] \<Longrightarrow>
     replaced m r rep gap pre (x # xs) = replaced m r rep (gap @ [x]) (x # pre) xs"
  by (simp add: replaced_def scanGlobal_skip)

lemma replaced_match:
  assumes "ends m r (pre, suf, None) = (pre1, suf1, g) # rest" and "length suf1 < length suf"
  shows "replaced m r rep gap pre suf = gap @ rep @ replaced m r rep [] pre1 suf1"
proof -
  from scanGlobal_match[OF assms, of gap] obtain w where
    "scanGlobal m r gap pre suf = (let (ms, tailText) = scanGlobal m r [] pre1 suf1 in ((gap, w, g) # ms, tailText))"
    by blast
  then show ?thesis by (simp add: replaced_def split: prod.splits)
qed

lemma groups_end: "ends m r (pre, [], None) = [] \<Longrightarrow> groups m r pre [] = []"
  by (simp add: groups_def scanGlobal_end)

lemma groups_match:
  assumes "ends m r (pre, suf, None) = (pre1, suf1, g) # rest" and "length suf1 < length suf"
  shows "groups m r pre suf = g # groups m r pre1 suf1"
proof -
  from scanGlobal_match[OF assms, of "[]"] obtain w where
    "scanGlobal m r [] pre suf = (let (ms, tailText) = scanGlobal m r [] pre1 suf1 in (([], w, g) # ms, tailText))"
    by blast
  then show ?thesis by (simp add: groups_def split: prod.splits)
qed

text \<open>The text carried before the first match only ever stands in front.\<close>

lemma scanGlobal_gap:
  "scanGlobal m r gap pre suf =
     (case scanGlobal m r [] pre suf of
        ([], tailText) \<Rightarrow> ([], gap @ tailText)
      | ((g0, w, g) # ms, tailText) \<Rightarrow> ((gap @ g0, w, g) # ms, tailText))"
  by (simp only: scanGlobal.simps[of m r gap pre suf] scanGlobal.simps[of m r "[]" pre suf])
     (simp add: Let_def split: option.splits prod.splits list.splits)

lemma replaced_gap: "replaced m r rep gap pre suf = gap @ replaced m r rep [] pre suf"
  unfolding replaced_def
  by (subst scanGlobal_gap) (simp split: prod.splits list.splits)

lemma groups_gap: "map (\<lambda>(gap, matched, g). g) (fst (scanGlobal m r gap pre suf)) = groups m r pre suf"
  by (subst scanGlobal_gap) (simp add: groups_def split: prod.splits list.splits)

lemma replaced_skip_Cons:
  "ends m r (pre, x # xs, None) = [] \<Longrightarrow> replaced m r rep [] pre (x # xs) = x # replaced m r rep [] (x # pre) xs"
  using replaced_gap[of m r rep "[x]" "x # pre" xs] by (simp add: replaced_skip)

lemma groups_skip:
  "ends m r (pre, x # xs, None) = [] \<Longrightarrow> groups m r pre (x # xs) = groups m r (x # pre) xs"
  using groups_gap[of m r "[x]" "x # pre" xs] by (simp add: groups_def scanGlobal_skip)

section \<open>The patterns of the parser, read directly\<close>

subsection \<open>A greedy run of one class\<close>

lemma ends_Star_Cls_Nil: "ends m (Star (Cls p)) (pre, [], c) = [(pre, [], c)]"
  by (subst ends.simps(8)) simp

lemma ends_Star_Cls_Cons:
  "ends m (Star (Cls p)) (pre, x # xs, c) =
     (if p x then ends m (Star (Cls p)) (x # pre, xs, c) else []) @ [(pre, x # xs, c)]"
  by (subst ends.simps(8)) simp

lemma ends_Star_Cls_head:
  "\<exists>rest. ends m (Star (Cls p)) (pre, suf, c) = (rev (takeWhile p suf) @ pre, dropWhile p suf, c) # rest"
proof (induction suf arbitrary: pre)
  case Nil
  show ?case by (simp add: ends_Star_Cls_Nil)
next
  case (Cons x xs)
  from Cons[of "x # pre"] show ?case by (auto simp: ends_Star_Cls_Cons)
qed

subsection \<open>\<^verbatim>\<open>/\s+/g\<close>: runs of white space become one space\<close>

function squeeze :: "jsstring \<Rightarrow> jsstring" where
  "squeeze [] = []"
| "squeeze (x # xs) = (if isSpace x then 0x20 # squeeze (dropWhile isSpace xs) else x # squeeze xs)"
  by pat_completeness auto
termination
  by (relation "measure length") (auto simp: length_dropWhile_le le_imp_less_Suc)

lemma ends_spacesRe_Nil: "ends False spacesRe (pre, [], None) = []"
  by (simp add: spacesRe_def OneOrMore_def)

lemma ends_spacesRe_other: "\<not> isSpace x \<Longrightarrow> ends False spacesRe (pre, x # xs, None) = []"
  by (simp add: spacesRe_def OneOrMore_def)

lemma ends_spacesRe_space:
  "isSpace x \<Longrightarrow> \<exists>rest. ends False spacesRe (pre, x # xs, None)
       = (rev (takeWhile isSpace xs) @ x # pre, dropWhile isSpace xs, None) # rest"
  using ends_Star_Cls_head[of False isSpace "x # pre" xs None]
  by (simp add: spacesRe_def OneOrMore_def)

lemma replaced_spacesRe: "replaced False spacesRe [0x20] [] pre s = squeeze s"
proof (induction s arbitrary: pre rule: squeeze.induct)
  case 1
  show ?case by (simp add: replaced_end ends_spacesRe_Nil)
next
  case (2 x xs)
  show ?case
  proof (cases "isSpace x")
    case True
    from ends_spacesRe_space[OF True, of pre xs] obtain rest where
      e: "ends False spacesRe (pre, x # xs, None)
            = (rev (takeWhile isSpace xs) @ x # pre, dropWhile isSpace xs, None) # rest" by blast
    have "length (dropWhile isSpace xs) < length (x # xs)"
      by (simp add: length_dropWhile_le le_imp_less_Suc)
    from replaced_match[OF e this, of "[0x20]" "[]"] "2.IH"(1)[OF True] True
    show ?thesis by simp
  next
    case False
    with "2.IH"(2)[OF False] show ?thesis
      by (simp add: replaced_skip_Cons ends_spacesRe_other)
  qed
qed

lemma js_replace_spacesRe: "js_replace False spacesRe (js '' '') s = squeeze s"
  by (simp add: js_replace_replaced replaced_spacesRe js_def)

subsection \<open>\<^verbatim>\<open>/\s+#.*$/g\<close>: the text is cut where a comment starts\<close>

definition commentAhead :: "jsstring \<Rightarrow> bool" where
  "commentAhead s =
     (case s of
        [] \<Rightarrow> False
      | x # xs \<Rightarrow> isSpace x \<and>
          (case dropWhile isSpace xs of [] \<Rightarrow> False | y # ys \<Rightarrow> y = 0x23 \<and> list_all isDot ys))"

fun cutComment :: "jsstring \<Rightarrow> jsstring" where
  "cutComment [] = []"
| "cutComment (x # xs) = (if commentAhead (x # xs) then [] else x # cutComment xs)"

lemma hash_no_space [simp]: "\<not> isSpace 0x23"
  by (simp add: isSpace_def isLineTerminator_def)

lemma matches_commentRe:
  "matches False commentRe pre w suf c c' \<longleftrightarrow>
     (\<exists>w1 w3. w = w1 @ 0x23 # w3 \<and> w1 \<noteq> [] \<and> list_all isSpace w1 \<and> list_all isDot w3) \<and> suf = [] \<and> c' = c"
  by (auto simp: commentRe_def matches_Seq js_def)

lemma commentAhead_iff:
  "commentAhead s \<longleftrightarrow> (\<exists>w1 w3. s = w1 @ 0x23 # w3 \<and> w1 \<noteq> [] \<and> list_all isSpace w1 \<and> list_all isDot w3)"
proof
  assume a: "commentAhead s"
  then obtain x xs where s: "s = x # xs" and x: "isSpace x" by (auto simp: commentAhead_def split: list.splits)
  with a obtain ys where d: "dropWhile isSpace xs = 0x23 # ys" and ys: "list_all isDot ys"
    by (auto simp: commentAhead_def split: list.splits)
  have "s = (x # takeWhile isSpace xs) @ 0x23 # ys"
    using s d takeWhile_dropWhile_id[of isSpace xs] by simp
  moreover have "list_all isSpace (x # takeWhile isSpace xs)"
    using x by (auto simp: list_all_iff dest: set_takeWhileD)
  ultimately show "\<exists>w1 w3. s = w1 @ 0x23 # w3 \<and> w1 \<noteq> [] \<and> list_all isSpace w1 \<and> list_all isDot w3"
    using ys by blast
next
  assume "\<exists>w1 w3. s = w1 @ 0x23 # w3 \<and> w1 \<noteq> [] \<and> list_all isSpace w1 \<and> list_all isDot w3"
  then obtain w1 w3 where s: "s = w1 @ 0x23 # w3" and ne: "w1 \<noteq> []" and w1: "list_all isSpace w1"
    and w3: "list_all isDot w3" by blast
  from ne obtain x xs where w1c: "w1 = x # xs" by (cases w1) auto
  with w1 have "isSpace x" and xs: "\<forall>y \<in> set xs. isSpace y" by (auto simp: list_all_iff)
  from xs have "dropWhile isSpace (xs @ 0x23 # w3) = 0x23 # w3" by simp
  with s w1c \<open>isSpace x\<close> w3 show "commentAhead s" by (simp add: commentAhead_def)
qed

lemma ends_commentRe:
  "ends False commentRe (pre, s, None) = [] \<longleftrightarrow> \<not> commentAhead s"
  using ends_nonempty[of False commentRe pre s None]
  by (auto simp: matches_commentRe commentAhead_iff)

lemma ends_commentRe_head:
  assumes "commentAhead s"
  shows "\<exists>rest. ends False commentRe (pre, s, None) = (rev s @ pre, [], None) # rest"
proof -
  from assms obtain st rest where e: "ends False commentRe (pre, s, None) = st # rest"
    using ends_commentRe[of pre s] by (cases "ends False commentRe (pre, s, None)") auto
  obtain pre' suf' c' where st: "st = (pre', suf', c')" by (cases st)
  from ends_head[OF e[unfolded st]] have "suf' = []" "pre' = rev s @ pre" "c' = None"
    by (auto simp: matches_commentRe)
  with e st show ?thesis by simp
qed

lemma replaced_commentRe: "replaced False commentRe [] [] pre s = cutComment s"
proof (induction s arbitrary: pre)
  case Nil
  have "\<not> commentAhead []" by (simp add: commentAhead_def)
  then show ?case by (simp add: replaced_end ends_commentRe)
next
  case (Cons x xs)
  show ?case
  proof (cases "commentAhead (x # xs)")
    case True
    from ends_commentRe_head[OF True, of pre] obtain rest where
      e: "ends False commentRe (pre, x # xs, None) = (rev (x # xs) @ pre, [], None) # rest" by blast
    have "\<not> commentAhead []" by (simp add: commentAhead_def)
    then have "replaced False commentRe [] [] (rev (x # xs) @ pre) [] = []"
      by (simp add: replaced_end ends_commentRe)
    with replaced_match[OF e, of "[]" "[]"] True show ?thesis by simp
  next
    case False
    then have "ends False commentRe (pre, x # xs, None) = []" by (simp add: ends_commentRe)
    with Cons False show ?thesis by (simp add: replaced_skip_Cons)
  qed
qed

lemma stripInlineComment_direct: "stripInlineComment s = js_trim (cutComment s)"
  by (simp add: stripInlineComment_def js_replace_replaced replaced_commentRe)

lemma normalizeRhs_direct: "normalizeRhs s = js_trim (squeeze (js_trim (cutComment s)))"
  by (simp add: normalizeRhs_def stripInlineComment_direct js_replace_spacesRe)

subsection \<open>What a normalized value looks like\<close>

text \<open>
  No white space stands right before a \<^verbatim>\<open>#\<close>; white space is single spaces; and neither
  end is white space.
\<close>

definition noComment :: "jsstring \<Rightarrow> bool" where
  "noComment s = successively (\<lambda>a b. \<not> (isSpace a \<and> b = 0x23)) s"

definition singleSpaced :: "jsstring \<Rightarrow> bool" where
  "singleSpaced s = (successively (\<lambda>a b. \<not> (isSpace a \<and> isSpace b)) s
     \<and> list_all (\<lambda>a. a = 0x20 \<or> \<not> isSpace a) s)"

definition trimmed :: "jsstring \<Rightarrow> bool" where
  "trimmed s = (s = [] \<or> (\<not> isSpace (hd s) \<and> \<not> isSpace (last s)))"

lemma space_is_space [simp]: "isSpace 0x20"
  by (simp add: isSpace_def)

lemma js_trim_slice: "\<exists>a b. a @ js_trim s @ b = s"
proof -
  let ?t = "dropWhile isSpace s"
  have a: "takeWhile isSpace s @ ?t = s" by simp
  have "rev (takeWhile isSpace (rev ?t) @ dropWhile isSpace (rev ?t)) = ?t" by simp
  then have b: "rev (dropWhile isSpace (rev ?t)) @ rev (takeWhile isSpace (rev ?t)) = ?t"
    by (simp only: rev_append)
  have "takeWhile isSpace s @ rev (dropWhile isSpace (rev ?t)) @ rev (takeWhile isSpace (rev ?t)) = s"
    by (simp only: a b)
  then show ?thesis unfolding js_trim_def by blast
qed

lemma successively_js_trim: "successively P s \<Longrightarrow> successively P (js_trim s)"
proof -
  assume a: "successively P s"
  obtain u v where "u @ js_trim s @ v = s" using js_trim_slice by blast
  with a have "successively P (u @ js_trim s @ v)" by simp
  then show ?thesis by (simp add: successively_append_iff)
qed

lemma list_all_js_trim: "list_all P s \<Longrightarrow> list_all P (js_trim s)"
proof -
  assume a: "list_all P s"
  obtain u v where "u @ js_trim s @ v = s" using js_trim_slice by blast
  with a have "list_all P (u @ js_trim s @ v)" by simp
  then show ?thesis by simp
qed

lemma trimmed_js_trim: "trimmed (js_trim s)"
proof (cases "js_trim s = []")
  case True
  then show ?thesis by (simp add: trimmed_def)
next
  case False
  let ?t = "dropWhile isSpace s"
  let ?u = "dropWhile isSpace (rev ?t)"
  from False have u: "?u \<noteq> []" by (simp add: js_trim_def)
  then have t: "?t \<noteq> []" by (metis dropWhile.simps(1) rev.simps(1))
  from u have "\<not> isSpace (hd ?u)" by (rule hd_dropWhile)
  then have l: "\<not> isSpace (last (js_trim s))" using u by (simp add: js_trim_def last_rev)
  from u have "hd ?u \<in> set (rev ?t)" by (meson hd_in_set set_dropWhileD)
  moreover from u have "\<not> isSpace (hd ?u)" by (rule hd_dropWhile)
  ultimately have "last ?u = last (rev ?t)" by (rule dropWhile_last)
  also have "\<dots> = hd ?t" using t by (simp add: last_rev)
  finally have "hd (js_trim s) = hd ?t" using u by (simp add: js_trim_def hd_rev)
  moreover from t have "\<not> isSpace (hd ?t)" by (rule hd_dropWhile)
  ultimately show ?thesis using l by (simp add: trimmed_def)
qed


subsection \<open>The three steps keep and establish these shapes\<close>

lemma squeeze_Nil_iff [simp]: "squeeze s = [] \<longleftrightarrow> s = []"
  by (cases s) simp_all

lemma hd_squeeze: "s \<noteq> [] \<Longrightarrow> hd (squeeze s) = (if isSpace (hd s) then 0x20 else hd s)"
  by (cases s) simp_all

lemma dropWhile_head: "dropWhile P xs \<noteq> [] \<Longrightarrow> \<not> P (hd (dropWhile P xs))"
  by (rule hd_dropWhile)

lemma run_then_hash:
  assumes "noComment (x # xs)" and "isSpace x" and "dropWhile isSpace xs \<noteq> []"
  shows "hd (dropWhile isSpace xs) \<noteq> 0x23"
proof -
  let ?run = "x # takeWhile isSpace xs"
  from assms(1) have S: "successively (\<lambda>a b. \<not> (isSpace a \<and> b = 0x23)) (?run @ dropWhile isSpace xs)"
    by (simp add: noComment_def)
  from S[unfolded successively_append_iff] assms(3)
  have "\<not> (isSpace (last ?run) \<and> hd (dropWhile isSpace xs) = 0x23)"
    by (auto split: if_splits)
  moreover have "isSpace (last ?run)"
  proof (cases "takeWhile isSpace xs = []")
    case True
    with assms(2) show ?thesis by simp
  next
    case False
    then have "last (takeWhile isSpace xs) \<in> set (takeWhile isSpace xs)" by (rule last_in_set)
    then have "isSpace (last (takeWhile isSpace xs))" by (rule set_takeWhileD[THEN conjunct2])
    with False show ?thesis by simp
  qed
  ultimately show ?thesis by blast
qed

lemma noComment_tail: "noComment (x # xs) \<Longrightarrow> noComment xs"
  by (auto simp: noComment_def successively_Cons)

lemma noComment_dropWhile: "noComment s \<Longrightarrow> noComment (dropWhile P s)"
proof -
  assume "noComment s"
  then have "successively (\<lambda>a b. \<not> (isSpace a \<and> b = 0x23)) (takeWhile P s @ dropWhile P s)"
    by (simp add: noComment_def)
  then show ?thesis unfolding noComment_def successively_append_iff by blast
qed

lemma noComment_squeeze: "noComment s \<Longrightarrow> noComment (squeeze s)"
proof (induction s rule: squeeze.induct)
  case 1
  then show ?case by simp
next
  case (2 x xs)
  show ?case
  proof (cases "isSpace x")
    case True
    let ?d = "dropWhile isSpace xs"
    from "2.prems" have "noComment ?d" by (blast intro: noComment_dropWhile noComment_tail)
    with "2.IH"(1)[OF True] have ih: "noComment (squeeze ?d)" by simp
    have "?d \<noteq> [] \<Longrightarrow> hd (squeeze ?d) \<noteq> 0x23"
    proof -
      assume ne: "?d \<noteq> []"
      then have "\<not> isSpace (hd ?d)" by (rule hd_dropWhile)
      with ne have "hd (squeeze ?d) = hd ?d" by (simp add: hd_squeeze)
      with run_then_hash[OF "2.prems" True ne] show ?thesis by simp
    qed
    with ih True show ?thesis by (auto simp: noComment_def successively_Cons)
  next
    case False
    from "2.prems" have "noComment xs" by (rule noComment_tail)
    with "2.IH"(2)[OF False] False show ?thesis by (auto simp: noComment_def successively_Cons)
  qed
qed

lemma singleSpaced_squeeze: "singleSpaced (squeeze s)"
proof (induction s rule: squeeze.induct)
  case 1
  show ?case by (simp add: singleSpaced_def)
next
  case (2 x xs)
  show ?case
  proof (cases "isSpace x")
    case True
    let ?d = "dropWhile isSpace xs"
    have "?d \<noteq> [] \<Longrightarrow> \<not> isSpace (hd (squeeze ?d))"
    proof -
      assume ne: "?d \<noteq> []"
      then have "\<not> isSpace (hd ?d)" by (rule hd_dropWhile)
      with ne show ?thesis by (simp add: hd_squeeze)
    qed
    with "2.IH"(1)[OF True] True show ?thesis
      by (auto simp: singleSpaced_def successively_Cons)
  next
    case False
    with "2.IH"(2)[OF False] show ?thesis by (auto simp: singleSpaced_def successively_Cons)
  qed
qed



lemma hd_cutComment: "cutComment s \<noteq> [] \<Longrightarrow> hd (cutComment s) = hd s"
  by (cases s) (auto split: if_splits)

lemma noComment_cutComment: "list_all isDot s \<Longrightarrow> noComment (cutComment s)"
proof (induction s)
  case Nil
  show ?case by (simp add: noComment_def)
next
  case (Cons x xs)
  from Cons have ih: "noComment (cutComment xs)" by simp
  show ?case
  proof (cases "commentAhead (x # xs)")
    case True
    then show ?thesis by (simp add: noComment_def)
  next
    case False
    have "cutComment xs \<noteq> [] \<Longrightarrow> \<not> (isSpace x \<and> hd (cutComment xs) = 0x23)"
    proof
      assume ne: "cutComment xs \<noteq> []" and "isSpace x \<and> hd (cutComment xs) = 0x23"
      then have sp: "isSpace x" and "hd xs = 0x23" by (simp_all add: hd_cutComment)
      moreover from ne have "xs \<noteq> []" by auto
      ultimately obtain ys where xs: "xs = 0x23 # ys" by (cases xs) auto
      with Cons.prems have "list_all isDot ys" by simp
      with sp xs have "x # xs = [x] @ 0x23 # ys \<and> [x] \<noteq> [] \<and> list_all isSpace [x] \<and> list_all isDot ys"
        by simp
      then have "commentAhead (x # xs)" unfolding commentAhead_iff by blast
      with False show False by blast
    qed
    with ih False show ?thesis by (auto simp: noComment_def successively_Cons)
  qed
qed

lemma normalizeRhs_shape:
  "list_all isDot s \<Longrightarrow> noComment (normalizeRhs s)"
  "singleSpaced (normalizeRhs s)"
  "trimmed (normalizeRhs s)"
proof -
  show "trimmed (normalizeRhs s)" by (simp add: normalizeRhs_direct trimmed_js_trim)
  have "singleSpaced (squeeze (js_trim (cutComment s)))" by (rule singleSpaced_squeeze)
  then show "singleSpaced (normalizeRhs s)"
    by (simp add: normalizeRhs_direct singleSpaced_def successively_js_trim list_all_js_trim)
  assume "list_all isDot s"
  then have "noComment (cutComment s)" by (rule noComment_cutComment)
  then have "noComment (js_trim (cutComment s))" by (simp add: noComment_def successively_js_trim)
  then have "noComment (squeeze (js_trim (cutComment s)))" by (rule noComment_squeeze)
  then show "noComment (normalizeRhs s)"
    by (simp add: normalizeRhs_direct noComment_def successively_js_trim)
qed



subsection \<open>The patterns anchored at both ends\<close>

definition isNoneText :: "jsstring \<Rightarrow> bool" where
  "isNoneText n = (map canonicalize n = map canonicalize (js ''None'')
     \<or> map canonicalize n = map canonicalize (js ''null''))"

definition isQuotedLiteral :: "jsstring \<Rightarrow> bool" where
  "isQuotedLiteral n = (3 \<le> length n \<and> isQuote (hd n) \<and> isQuote (last n)
     \<and> list_all notQuote (butlast (tl n)))"

definition isBareToken :: "jsstring \<Rightarrow> bool" where
  "isBareToken n = (n \<noteq> [] \<and> list_all isWordChar n)"

lemma js_test_anchored_ends: "js_test False (Seq Bol r) s \<longleftrightarrow> ends False r ([], s, None) \<noteq> []"
  by (simp add: js_test_def regexExec_Bol_start split: list.splits)

lemma js_test_anchored:
  "js_test False (Seq Bol r) s \<longleftrightarrow> (\<exists>w suf' c'. s = w @ suf' \<and> matches False r [] w suf' None c')"
  by (simp add: js_test_anchored_ends ends_nonempty)

lemma js_match_anchored:
  "js_match False (Seq Bol r) s =
     (case ends False r ([], s, None) of [] \<Rightarrow> None | (pre', suf', g) # _ \<Rightarrow> g)"
  by (simp add: js_match_def regexExec_Bol_start split: list.splits)

lemma js_test_noneRe: "js_test False noneRe n \<longleftrightarrow> isNoneText n"
  by (auto simp: noneRe_def js_test_anchored matches_Seq matches_Grp matches_Alt isNoneText_def)

lemma js_test_bareRe: "js_test False bareRe n \<longleftrightarrow> isBareToken n"
  by (auto simp: bareRe_def js_test_anchored matches_Seq isBareToken_def)

lemma isQuotedLiteral_iff:
  "isQuotedLiteral n \<longleftrightarrow>
     (\<exists>q inner q'. n = q # inner @ [q'] \<and> isQuote q \<and> isQuote q' \<and> inner \<noteq> [] \<and> list_all notQuote inner)"
proof
  assume a: "isQuotedLiteral n"
  then obtain q xs where n: "n = q # xs" by (cases n) (auto simp: isQuotedLiteral_def)
  with a have "xs \<noteq> []" by (auto simp: isQuotedLiteral_def)
  then have xs: "xs = butlast xs @ [last xs]" by simp
  from a n have "2 \<le> length xs" by (simp add: isQuotedLiteral_def)
  then have "butlast xs \<noteq> []" by (cases xs) (auto simp: Suc_le_eq)
  moreover have "n = q # butlast xs @ [last xs]" using n xs by simp
  moreover from a n \<open>xs \<noteq> []\<close> have "isQuote q" "isQuote (last xs)" "list_all notQuote (butlast xs)"
    by (simp_all add: isQuotedLiteral_def)
  ultimately show "\<exists>q inner q'. n = q # inner @ [q'] \<and> isQuote q \<and> isQuote q' \<and> inner \<noteq> [] \<and> list_all notQuote inner"
    by blast
next
  assume "\<exists>q inner q'. n = q # inner @ [q'] \<and> isQuote q \<and> isQuote q' \<and> inner \<noteq> [] \<and> list_all notQuote inner"
  then obtain q inner q' where "n = q # inner @ [q']" "isQuote q" "isQuote q'" "inner \<noteq> []" "list_all notQuote inner"
    by blast
  then show "isQuotedLiteral n"
    by (cases inner) (simp_all add: isQuotedLiteral_def)
qed

lemma matches_token_shape:
  "matches m (Seq (Cls isQuote) (Seq (Grp (OneOrMore (Cls notQuote))) r)) pre w suf c c' \<longleftrightarrow>
     (\<exists>q inner w3. w = q # inner @ w3 \<and> isQuote q \<and> inner \<noteq> [] \<and> list_all notQuote inner
        \<and> matches m r (rev inner @ q # pre) w3 suf (Some inner) c')"
proof
  assume "matches m (Seq (Cls isQuote) (Seq (Grp (OneOrMore (Cls notQuote))) r)) pre w suf c c'"
  then show "\<exists>q inner w3. w = q # inner @ w3 \<and> isQuote q \<and> inner \<noteq> [] \<and> list_all notQuote inner
        \<and> matches m r (rev inner @ q # pre) w3 suf (Some inner) c'"
    by (auto simp: matches_Cls_Seq matches_Seq matches_Grp) blast
next
  assume "\<exists>q inner w3. w = q # inner @ w3 \<and> isQuote q \<and> inner \<noteq> [] \<and> list_all notQuote inner
        \<and> matches m r (rev inner @ q # pre) w3 suf (Some inner) c'"
  then obtain q inner w3 where w: "w = q # inner @ w3" and q: "isQuote q"
    and inner: "inner \<noteq> []" "list_all notQuote inner"
    and r: "matches m r (rev inner @ q # pre) w3 suf (Some inner) c'" by blast
  from inner have "matches m (Grp (OneOrMore (Cls notQuote))) (q # pre) inner (w3 @ suf) c (Some inner)"
    by (simp add: matches_Grp)
  with r have "matches m (Seq (Grp (OneOrMore (Cls notQuote))) r) (q # pre) (inner @ w3) suf c c'"
    unfolding matches_Seq by blast
  with q w show "matches m (Seq (Cls isQuote) (Seq (Grp (OneOrMore (Cls notQuote))) r)) pre w suf c c'"
    unfolding matches_Cls_Seq by blast
qed

lemma matches_quoted_body:
  "matches False (Seq (Cls isQuote) (Seq (Grp (OneOrMore (Cls notQuote))) (Seq (Cls isQuote) Eol))) [] w suf c c'
   \<longleftrightarrow> (\<exists>q inner q'. w = q # inner @ [q'] \<and> isQuote q \<and> isQuote q' \<and> inner \<noteq> [] \<and> list_all notQuote inner
          \<and> c' = Some inner) \<and> suf = []"
  unfolding matches_token_shape by (auto simp: matches_Cls_Seq)

lemma js_match_quotedRe:
  "js_match False quotedRe n = (if isQuotedLiteral n then Some (butlast (tl n)) else None)"
proof -
  define R where "R = Seq (Cls isQuote) (Seq (Grp (OneOrMore (Cls notQuote))) (Seq (Cls isQuote) Eol))"
  have re: "quotedRe = Seq Bol R" by (simp add: quotedRe_def R_def)
  have body: "\<And>w suf c c'. matches False R [] w suf c c'
     \<longleftrightarrow> (\<exists>q inner q'. w = q # inner @ [q'] \<and> isQuote q \<and> isQuote q' \<and> inner \<noteq> [] \<and> list_all notQuote inner
          \<and> c' = Some inner) \<and> suf = []"
    unfolding R_def by (rule matches_quoted_body)
  show ?thesis
  proof (cases "ends False R ([], n, None)")
    case Nil
    have "\<not> isQuotedLiteral n"
    proof
      assume "isQuotedLiteral n"
      then obtain q inner q' where "n = (q # inner @ [q']) @ []"
        "matches False R [] (q # inner @ [q']) [] None (Some inner)"
        unfolding isQuotedLiteral_iff body by auto
      then have "ends False R ([], n, None) \<noteq> []" unfolding ends_nonempty by blast
      with Nil show False by blast
    qed
    with Nil show ?thesis by (simp add: js_match_anchored re)
  next
    case (Cons st rest)
    obtain pre' suf' c' where st: "st = (pre', suf', c')" by (cases st)
    from ends_head[OF Cons[unfolded st]] obtain q inner q' where
      n: "n = q # inner @ [q']" and q: "isQuote q" "isQuote q'" "inner \<noteq> []" "list_all notQuote inner"
      and c': "c' = Some inner"
      by (auto simp: body)
    from n q have "isQuotedLiteral n" unfolding isQuotedLiteral_iff by blast
    moreover from n have "butlast (tl n) = inner" by simp
    ultimately show ?thesis
      using Cons st c' by (simp add: js_match_anchored re)
  qed
qed

subsection \<open>\<^verbatim>\<open>/['"]([^'"]+)['"]/g\<close>: the quoted tokens, from left to right\<close>

definition tokenAhead :: "jsstring \<Rightarrow> bool" where
  "tokenAhead s = (case s of [] \<Rightarrow> False
     | x # xs \<Rightarrow> isQuote x \<and> takeWhile notQuote xs \<noteq> [] \<and> dropWhile notQuote xs \<noteq> [])"

function quotedTokens :: "jsstring \<Rightarrow> jsstring list" where
  "quotedTokens [] = []"
| "quotedTokens (x # xs) =
     (if tokenAhead (x # xs) then takeWhile notQuote xs # quotedTokens (tl (dropWhile notQuote xs))
      else quotedTokens xs)"
  by pat_completeness auto
termination
  by (relation "measure length") (auto simp: length_dropWhile_le le_imp_less_Suc less_Suc_eq_le
        intro: order_trans[OF diff_le_self])

lemma matches_tokenRe:
  "matches False tokenRe pre w suf c c' \<longleftrightarrow>
     (\<exists>q inner q'. w = q # inner @ [q'] \<and> isQuote q \<and> isQuote q' \<and> inner \<noteq> [] \<and> list_all notQuote inner
        \<and> c' = Some inner)"
  unfolding tokenRe_def matches_token_shape by auto

lemma token_split:
  assumes "x # xs = q # inner @ q' # suf" and "isQuote q'" and "list_all notQuote inner"
  shows "takeWhile notQuote xs = inner \<and> dropWhile notQuote xs = q' # suf"
proof -
  from assms(1) have xs: "xs = inner @ q' # suf" by simp
  from assms(2) have nq: "\<not> notQuote q'" by (simp add: notQuote_def)
  from assms(3) have all: "\<forall>y \<in> set inner. notQuote y" by (simp add: list_all_iff)
  from all nq show ?thesis unfolding xs by simp
qed

lemma ends_tokenRe_none: "\<not> tokenAhead s \<Longrightarrow> ends False tokenRe (pre, s, None) = []"
proof (rule ccontr)
  assume no: "\<not> tokenAhead s" and "ends False tokenRe (pre, s, None) \<noteq> []"
  then obtain w suf' c' where s: "s = w @ suf'" and m: "matches False tokenRe pre w suf' None c'"
    by (auto simp: ends_nonempty)
  from m obtain q inner q' where w: "w = q # inner @ [q']" and q: "isQuote q" "isQuote q'"
    "inner \<noteq> []" "list_all notQuote inner"
    by (auto simp: matches_tokenRe)
  from s w have "s = q # inner @ q' # suf'" by simp
  then obtain xs where sx: "s = q # xs" and "q # xs = q # inner @ q' # suf'" by simp
  from token_split[OF this(2) q(2) q(4)] q(3) have "takeWhile notQuote xs \<noteq> []" "dropWhile notQuote xs \<noteq> []"
    by (simp_all del: dropWhile_eq_Nil_conv)
  with q(1) sx have "tokenAhead s" by (simp add: tokenAhead_def del: dropWhile_eq_Nil_conv)
  with no show False by blast
qed

lemma ends_tokenRe_some:
  assumes "tokenAhead (x # xs)"
  shows "\<exists>pre1 rest. ends False tokenRe (pre, x # xs, None)
     = (pre1, tl (dropWhile notQuote xs), Some (takeWhile notQuote xs)) # rest"
proof -
  from assms have x: "isQuote x" and t: "takeWhile notQuote xs \<noteq> []" and d: "dropWhile notQuote xs \<noteq> []"
    by (simp_all add: tokenAhead_def)
  let ?inner = "takeWhile notQuote xs"
  let ?q' = "hd (dropWhile notQuote xs)"
  let ?suf = "tl (dropWhile notQuote xs)"
  from d have q': "isQuote ?q'" using hd_dropWhile[of notQuote xs] by (simp add: notQuote_def)
  have inner: "list_all notQuote ?inner" by (auto simp: list_all_iff dest: set_takeWhileD)
  from d have "?inner @ ?q' # ?suf = xs" by simp
  then have split: "(x # ?inner @ [?q']) @ ?suf = x # xs" by simp
  have "matches False tokenRe pre (x # ?inner @ [?q']) ?suf None (Some ?inner)"
    using x q' t inner unfolding matches_tokenRe by blast
  from ends_complete[OF this] have "ends False tokenRe (pre, x # xs, None) \<noteq> []"
    unfolding split by auto
  then obtain st rest where e: "ends False tokenRe (pre, x # xs, None) = st # rest"
    by (cases "ends False tokenRe (pre, x # xs, None)") auto
  obtain pre1 suf1 c1 where st: "st = (pre1, suf1, c1)" by (cases st)
  from ends_head[OF e[unfolded st]] obtain w q inner q2 where
    w: "x # xs = w @ suf1" "w = q # inner @ [q2]" "isQuote q2" "list_all notQuote inner" "c1 = Some inner"
    by (auto simp: matches_tokenRe)
  then have "x # xs = q # inner @ q2 # suf1" by simp
  from token_split[OF this w(3) w(4)] w(5) have "suf1 = ?suf" "c1 = Some ?inner" by simp_all
  with e st show ?thesis by blast
qed

lemma groups_tokenRe: "groups False tokenRe pre s = map Some (quotedTokens s)"
proof (induction s arbitrary: pre rule: quotedTokens.induct)
  case 1
  have "\<not> tokenAhead []" by (simp add: tokenAhead_def)
  then show ?case by (simp add: groups_end ends_tokenRe_none)
next
  case (2 x xs)
  show ?case
  proof (cases "tokenAhead (x # xs)")
    case True
    from ends_tokenRe_some[OF True, of pre] obtain pre1 rest where
      e: "ends False tokenRe (pre, x # xs, None)
            = (pre1, tl (dropWhile notQuote xs), Some (takeWhile notQuote xs)) # rest" by blast
    have "length (tl (dropWhile notQuote xs)) < length (x # xs)"
      by (simp add: length_dropWhile_le le_imp_less_Suc less_Suc_eq_le order_trans[OF diff_le_self])
    from groups_match[OF e this] "2.IH"(1)[OF True, of pre1] True show ?thesis by simp
  next
    case False
    with "2.IH"(2)[OF False] show ?thesis
      by (simp add: groups_skip ends_tokenRe_none)
  qed
qed

lemma map_filter_Some: "List.map_filter id (map Some xs) = xs"
  by (induction xs) (simp_all add: List.map_filter_simps)

lemma tokens_direct: "List.map_filter id (js_matchAll False tokenRe n) = quotedTokens n"
  by (simp add: js_matchAll_groups groups_tokenRe map_filter_Some)

subsection \<open>The parent list, rule by rule\<close>

lemma asArrayDownRevision_direct:
  "asArrayDownRevision (Some raw) =
     (let n = normalizeRhs raw
      in if isNoneText n then []
         else if isQuotedLiteral n then [butlast (tl n)]
         else if quotedTokens n \<noteq> [] then quotedTokens n
         else if isBareToken n then [n]
         else [])"
proof (cases "raw = []")
  case True
  have n: "normalizeRhs [] = []"
    by (simp add: normalizeRhs_direct js_trim_def)
  have "\<not> isNoneText []" by (simp add: isNoneText_def js_def)
  moreover have "\<not> isQuotedLiteral []" by (simp add: isQuotedLiteral_def)
  moreover have "\<not> isBareToken []" by (simp add: isBareToken_def)
  ultimately show ?thesis using True n by (simp add: asArrayDownRevision_def)
next
  case False
  then show ?thesis
    by (simp add: asArrayDownRevision_def Let_def js_test_noneRe js_match_quotedRe tokens_direct js_test_bareRe)
qed

text \<open>
  A sequence literal in the words of the specification: a value in parentheses or in
  square brackets.
\<close>

definition isSequenceLiteral :: "jsstring \<Rightarrow> bool" where
  "isSequenceLiteral n = (n \<noteq> [] \<and> ((hd n = 0x28 \<and> last n = 0x29) \<or> (hd n = 0x5B \<and> last n = 0x5D)))"

text \<open>
  The parent value the parser cannot read: none of the rules of \<open>asArrayDownRevision\<close>
  applies to it.
\<close>

definition unreadable :: "jsstring \<Rightarrow> bool" where
  "unreadable n = (\<not> isNoneText n \<and> \<not> isQuotedLiteral n \<and> quotedTokens n = [] \<and> \<not> isBareToken n)"

subsection \<open>\<^verbatim>\<open>/^['"]|['"]$/g\<close>: a quote at either end is removed\<close>

fun dropEndQuote :: "jsstring \<Rightarrow> jsstring" where
  "dropEndQuote [] = []"
| "dropEndQuote [x] = (if isQuote x then [] else [x])"
| "dropEndQuote (x # y # ys) = x # dropEndQuote (y # ys)"

definition stripEdgeQuotes :: "jsstring \<Rightarrow> jsstring" where
  "stripEdgeQuotes s = (case s of [] \<Rightarrow> []
     | x # xs \<Rightarrow> if isQuote x then dropEndQuote xs else x # dropEndQuote xs)"

lemma ends_edgeQuoteRe_Nil: "ends False edgeQuoteRe (pre, [], None) = []"
  by (simp add: edgeQuoteRe_def)

lemma ends_edgeQuoteRe_later:
  "pre \<noteq> [] \<Longrightarrow> ends False edgeQuoteRe (pre, x # xs, None)
     = (if isQuote x \<and> xs = [] then [(x # pre, [], None)] else [])"
  by (simp add: edgeQuoteRe_def)

lemma ends_edgeQuoteRe_start:
  "ends False edgeQuoteRe ([], x # xs, None)
     = (if isQuote x then ([x], xs, None) # (if xs = [] then [([x], [], None)] else []) else [])"
  by (simp add: edgeQuoteRe_def)

lemma replaced_edgeQuoteRe_later:
  "pre \<noteq> [] \<Longrightarrow> replaced False edgeQuoteRe [] [] pre s = dropEndQuote s"
proof (induction s arbitrary: pre rule: dropEndQuote.induct)
  case 1
  show ?case by (simp add: replaced_end ends_edgeQuoteRe_Nil)
next
  case (2 x)
  show ?case
  proof (cases "isQuote x")
    case True
    with 2 have e: "ends False edgeQuoteRe (pre, [x], None) = (x # pre, [], None) # []"
      by (simp add: ends_edgeQuoteRe_later)
    from replaced_match[OF e, of "[]" "[]"] True show ?thesis
      by (simp add: replaced_end ends_edgeQuoteRe_Nil)
  next
    case False
    with 2 show ?thesis
      by (simp add: replaced_skip_Cons ends_edgeQuoteRe_later replaced_end ends_edgeQuoteRe_Nil)
  qed
next
  case (3 x y ys)
  from "3.prems" have "ends False edgeQuoteRe (pre, x # y # ys, None) = []"
    by (simp add: ends_edgeQuoteRe_later)
  with "3.IH"[of "x # pre"] show ?case by (simp add: replaced_skip_Cons)
qed

lemma js_replace_edgeQuoteRe: "js_replace False edgeQuoteRe [] s = stripEdgeQuotes s"
proof (cases s)
  case Nil
  then show ?thesis
    by (simp add: js_replace_replaced stripEdgeQuotes_def replaced_end ends_edgeQuoteRe_Nil)
next
  case (Cons x xs)
  show ?thesis
  proof (cases "isQuote x")
    case True
    then obtain rest where e: "ends False edgeQuoteRe ([], x # xs, None) = ([x], xs, None) # rest"
      by (simp add: ends_edgeQuoteRe_start)
    from replaced_match[OF e, of "[]" "[]"] True Cons show ?thesis
      by (simp add: js_replace_replaced stripEdgeQuotes_def replaced_edgeQuoteRe_later)
  next
    case False
    with Cons show ?thesis
      by (simp add: js_replace_replaced stripEdgeQuotes_def replaced_skip_Cons ends_edgeQuoteRe_start
            replaced_edgeQuoteRe_later)
  qed
qed

lemma parseRevision_direct:
  "parseRevision raw =
     (let n = normalizeRhs raw
      in if isQuotedLiteral n then butlast (tl n) else js_trim (stripEdgeQuotes n))"
  by (simp add: parseRevision_def Let_def js_match_quotedRe js_replace_edgeQuoteRe)

subsection \<open>When the identifier comes out empty\<close>

definition onlyQuotes :: "jsstring \<Rightarrow> bool" where
  "onlyQuotes n = (length n \<le> 2 \<and> list_all isQuote n)"

lemma js_trim_Nil_iff: "js_trim s = [] \<longleftrightarrow> list_all isSpace s"
proof -
  have "js_trim s = [] \<longleftrightarrow> dropWhile isSpace (rev (dropWhile isSpace s)) = []"
    by (simp add: js_trim_def)
  also have "\<dots> \<longleftrightarrow> (\<forall>x \<in> set (dropWhile isSpace s). isSpace x)" by simp
  also have "\<dots> \<longleftrightarrow> dropWhile isSpace s = []"
  proof
    assume a: "\<forall>x \<in> set (dropWhile isSpace s). isSpace x"
    show "dropWhile isSpace s = []"
    proof (rule ccontr)
      assume ne: "dropWhile isSpace s \<noteq> []"
      then have "\<not> isSpace (hd (dropWhile isSpace s))" by (rule hd_dropWhile)
      moreover from ne have "hd (dropWhile isSpace s) \<in> set (dropWhile isSpace s)" by simp
      ultimately show False using a by blast
    qed
  next
    assume e: "dropWhile isSpace s = []"
    show "\<forall>x \<in> set (dropWhile isSpace s). isSpace x" unfolding e by simp
  qed
  also have "\<dots> \<longleftrightarrow> list_all isSpace s" by (simp add: list_all_iff)
  finally show ?thesis .
qed

lemma quote_no_space: "isQuote x \<Longrightarrow> \<not> isSpace x"
  by (auto simp: isQuote_def isSpace_def isLineTerminator_def)

lemma dropEndQuote_last:
  "dropEndQuote s = (if s \<noteq> [] \<and> isQuote (last s) then butlast s else s)"
  by (induction s rule: dropEndQuote.induct) auto

lemma spaces_between_quotes:
  assumes "trimmed n" and "\<not> isQuotedLiteral n" and "list_all isSpace (stripEdgeQuotes n)"
  shows "onlyQuotes n"
proof (cases n)
  case Nil
  then show ?thesis by (simp add: onlyQuotes_def)
next
  case (Cons x xs)
  from assms(1) Cons have hd: "\<not> isSpace x" and last: "\<not> isSpace (last (x # xs))"
    by (simp_all add: trimmed_def)
  from assms(3) Cons hd have qx: "isQuote x" and mid: "list_all isSpace (dropEndQuote xs)"
    by (auto simp: stripEdgeQuotes_def split: if_splits)
  show ?thesis
  proof (cases "xs = []")
    case True
    with Cons qx show ?thesis by (simp add: onlyQuotes_def)
  next
    case False
    with last have lx: "\<not> isSpace (last xs)" by simp
    have ql: "isQuote (last xs)"
    proof (rule ccontr)
      assume "\<not> isQuote (last xs)"
      with mid have "list_all isSpace xs" by (simp add: dropEndQuote_last)
      with False have "isSpace (last xs)" by (simp add: list_all_iff)
      with lx show False by blast
    qed
    with mid False have inner: "list_all isSpace (butlast xs)" by (simp add: dropEndQuote_last)
    have "butlast xs = []"
    proof (rule ccontr)
      assume ne: "butlast xs \<noteq> []"
      from inner have "list_all notQuote (butlast xs)"
        by (auto simp: list_all_iff notQuote_def dest: quote_no_space)
      moreover from False have "n = x # butlast xs @ [last xs]" using Cons by simp
      ultimately have "isQuotedLiteral n" using qx ql ne unfolding isQuotedLiteral_iff by blast
      with assms(2) show False by blast
    qed
    with False obtain y where y: "xs = [y]" by (cases xs) (auto split: if_splits)
    with ql have "isQuote y" by simp
    with Cons qx y show ?thesis by (simp add: onlyQuotes_def)
  qed
qed

lemma onlyQuotes_cases:
  "onlyQuotes n \<longleftrightarrow> n = [] \<or> (\<exists>q. n = [q] \<and> isQuote q) \<or> (\<exists>q q'. n = [q, q'] \<and> isQuote q \<and> isQuote q')"
proof (cases n)
  case Nil
  then show ?thesis by (simp add: onlyQuotes_def)
next
  case (Cons x xs)
  then show ?thesis
    by (cases xs; cases "tl xs") (auto simp: onlyQuotes_def)
qed

lemma parseRevision_empty:
  "parseRevision raw = [] \<longleftrightarrow> onlyQuotes (normalizeRhs raw)"
proof -
  let ?n = "normalizeRhs raw"
  have tr: "trimmed ?n" by (rule normalizeRhs_shape(3))
  show ?thesis
  proof (cases "isQuotedLiteral ?n")
    case True
    then obtain q inner q' where n: "?n = q # inner @ [q']" and ne: "inner \<noteq> []"
      unfolding isQuotedLiteral_iff by blast
    from n have "butlast (tl ?n) = inner" by simp
    moreover from n ne have "\<not> onlyQuotes ?n" by (cases inner) (simp_all add: onlyQuotes_def)
    ultimately show ?thesis using True ne by (simp add: parseRevision_direct)
  next
    case False
    have "list_all isSpace (stripEdgeQuotes ?n) \<longleftrightarrow> onlyQuotes ?n"
    proof
      assume "list_all isSpace (stripEdgeQuotes ?n)"
      with tr False show "onlyQuotes ?n" by (rule spaces_between_quotes)
    next
      assume "onlyQuotes ?n"
      then show "list_all isSpace (stripEdgeQuotes ?n)"
        unfolding onlyQuotes_cases by (auto simp: stripEdgeQuotes_def)
    qed
    with False show ?thesis by (simp add: parseRevision_direct js_trim_Nil_iff)
  qed
qed

subsection \<open>The declaration patterns\<close>

text \<open>
  What the two declaration patterns accept, spelled out: white space, the name, white
  space, an optional type annotation (a colon, white space, and a non-empty text without
  \<^verbatim>\<open>=\<close>), white space, \<^verbatim>\<open>=\<close>, white space, a non-empty right-hand side without a line
  terminator, white space; the whole between a line start and a line end. White space
  includes line terminators, so a declaration may run over several lines.
\<close>

definition typeAnnotation :: "jsstring \<Rightarrow> bool" where
  "typeAnnotation ann =
     (\<exists>ws t. ann = 0x3A # ws @ t \<and> list_all isSpace ws \<and> t \<noteq> [] \<and> list_all notEquals t)"

definition declarationOf :: "jsstring \<Rightarrow> jsstring \<Rightarrow> jsstring \<Rightarrow> bool" where
  "declarationOf name rhs w =
     (\<exists>ws1 ws2 ann ws3 ws4 ws5.
        w = ws1 @ name @ ws2 @ ann @ ws3 @ 0x3D # ws4 @ rhs @ ws5
        \<and> list_all isSpace ws1 \<and> list_all isSpace ws2 \<and> (ann = [] \<or> typeAnnotation ann)
        \<and> list_all isSpace ws3 \<and> list_all isSpace ws4
        \<and> rhs \<noteq> [] \<and> list_all isDot rhs \<and> list_all isSpace ws5)"

definition hasDeclaration :: "jsstring \<Rightarrow> jsstring \<Rightarrow> bool" where
  "hasDeclaration name content =
     (\<exists>before w after rhs.
        content = before @ w @ after
        \<and> (before = [] \<or> isLineTerminator (last before))
        \<and> declarationOf name rhs w
        \<and> (after = [] \<or> isLineTerminator (hd after)))"

text \<open>
  The lines of a text: the pieces between its line terminators, in the words of the
  specification ("a line matching the pattern").
\<close>

fun splitLines :: "jsstring \<Rightarrow> jsstring \<Rightarrow> jsstring list" where
  "splitLines cur [] = [rev cur]"
| "splitLines cur (x # xs) =
     (if isLineTerminator x then rev cur # splitLines [] xs else splitLines (x # cur) xs)"

definition linesOf :: "jsstring \<Rightarrow> jsstring list" where
  "linesOf s = splitLines [] s"

lemma matches_Bol_Seq:
  "matches m (Seq Bol r) pre w suf c c' \<longleftrightarrow>
     (pre = [] \<or> (m \<and> isLineTerminator (hd pre))) \<and> matches m r pre w suf c c'"
  by (auto simp: matches_Seq)

lemma matches_Star_Seq:
  "matches m (Seq (Star (Cls p)) r) pre w suf c c' \<longleftrightarrow>
     (\<exists>ws w2. w = ws @ w2 \<and> list_all p ws \<and> matches m r (rev ws @ pre) w2 suf c c')"
  by (simp add: matches_Seq)

lemma matches_Lit_Seq:
  "matches m (Seq (Lit s) r) pre w suf c c' \<longleftrightarrow>
     (\<exists>w2. w = s @ w2 \<and> matches m r (rev s @ pre) w2 suf c c')"
  by (auto simp: matches_Seq)

lemma matches_Grp_Seq:
  "matches m (Seq (Grp (OneOrMore (Cls p))) r) pre w suf c c' \<longleftrightarrow>
     (\<exists>g w2. w = g @ w2 \<and> g \<noteq> [] \<and> list_all p g \<and> matches m r (rev g @ pre) w2 suf (Some g) c')"
  by (auto simp: matches_Seq matches_Grp)

lemma matches_Optional_Seq:
  "matches m (Seq (Optional r1) r2) pre w suf c c' \<longleftrightarrow>
     (\<exists>w1 w2 c1. w = w1 @ w2 \<and> (matches m r1 pre w1 (w2 @ suf) c c1 \<or> (w1 = [] \<and> c1 = c))
        \<and> matches m r2 (rev w1 @ pre) w2 suf c1 c')"
  by (simp add: matches_Seq matches_Optional)

lemma matches_annotation_shape:
  "matches m (Seq (Lit colon) (Seq (Star (Cls isSpace)) (OneOrMore (Cls notEquals)))) pre w suf c c'
     \<longleftrightarrow> (\<exists>ws t. w = colon @ ws @ t \<and> list_all isSpace ws \<and> t \<noteq> [] \<and> list_all notEquals t) \<and> c' = c"
  by (auto simp: matches_Lit_Seq matches_Star_Seq)

lemma matches_annotation:
  "matches m (Seq (Lit (js '':'')) (Seq (Star (Cls isSpace)) (OneOrMore (Cls notEquals)))) pre w suf c c'
     \<longleftrightarrow> typeAnnotation w \<and> c' = c"
  unfolding matches_annotation_shape by (simp add: typeAnnotation_def js_def)

lemma matches_tail_shape:
  "matches True (Seq (Star (Cls isSpace)) (Seq (Lit eq) (Seq (Star (Cls isSpace))
       (Seq (Grp (OneOrMore (Cls isDot))) (Seq (Star (Cls isSpace)) Eol))))) pre w suf c c'
   \<longleftrightarrow> (\<exists>ws3 ws4 rhs ws5. w = ws3 @ eq @ ws4 @ rhs @ ws5
          \<and> list_all isSpace ws3 \<and> list_all isSpace ws4 \<and> rhs \<noteq> [] \<and> list_all isDot rhs
          \<and> list_all isSpace ws5 \<and> c' = Some rhs)
       \<and> (suf = [] \<or> isLineTerminator (hd suf))"
  (is "?L \<longleftrightarrow> ?R")
proof
  assume ?L
  then obtain ws3 ws4 rhs ws5 where "w = ws3 @ eq @ ws4 @ rhs @ ws5" "list_all isSpace ws3"
    "list_all isSpace ws4" "rhs \<noteq> []" "list_all isDot rhs" "list_all isSpace ws5" "c' = Some rhs"
    "suf = [] \<or> isLineTerminator (hd suf)"
    by (auto simp: matches_Star_Seq matches_Lit_Seq matches_Grp_Seq)
  then show ?R by blast
next
  assume ?R
  then obtain ws3 ws4 rhs ws5 where w: "w = ws3 @ eq @ ws4 @ rhs @ ws5" and s3: "list_all isSpace ws3"
    and s4: "list_all isSpace ws4" and rhs: "rhs \<noteq> []" "list_all isDot rhs"
    and s5: "list_all isSpace ws5" and c': "c' = Some rhs"
    and eol: "suf = [] \<or> isLineTerminator (hd suf)"
    by blast
  have 1: "\<And>p. matches True (Seq (Star (Cls isSpace)) Eol) p ws5 suf (Some rhs) (Some rhs)"
    using s5 eol by (simp add: matches_Star_Seq)
  have 2: "\<And>p d. matches True (Seq (Grp (OneOrMore (Cls isDot))) (Seq (Star (Cls isSpace)) Eol))
      p (rhs @ ws5) suf d (Some rhs)"
    unfolding matches_Grp_Seq using 1 rhs by blast
  have 3: "\<And>p d. matches True (Seq (Star (Cls isSpace))
      (Seq (Grp (OneOrMore (Cls isDot))) (Seq (Star (Cls isSpace)) Eol))) p (ws4 @ rhs @ ws5) suf d (Some rhs)"
    unfolding matches_Star_Seq using 2 s4 by blast
  have 4: "\<And>p d. matches True (Seq (Lit eq) (Seq (Star (Cls isSpace))
      (Seq (Grp (OneOrMore (Cls isDot))) (Seq (Star (Cls isSpace)) Eol)))) p (eq @ ws4 @ rhs @ ws5) suf d (Some rhs)"
    unfolding matches_Lit_Seq using 3 by blast
  show ?L unfolding matches_Star_Seq[of True isSpace "Seq (Lit eq) _"] w c' using 4 s3 by blast
qed

lemma matches_declRe:
  "matches True (declRe name) pre w suf c c' \<longleftrightarrow>
     (pre = [] \<or> isLineTerminator (hd pre))
     \<and> (\<exists>rhs. declarationOf name rhs w \<and> c' = Some rhs)
     \<and> (suf = [] \<or> isLineTerminator (hd suf))"
  (is "?L \<longleftrightarrow> ?R")
proof
  assume ?L
  then have bol: "pre = [] \<or> isLineTerminator (hd pre)"
    and "\<exists>ws1 ws2 ann rest c1 p. w = ws1 @ name @ ws2 @ ann @ rest \<and> list_all isSpace ws1
          \<and> list_all isSpace ws2 \<and> (typeAnnotation ann \<and> c1 = c \<or> ann = [] \<and> c1 = c)
          \<and> matches True (Seq (Star (Cls isSpace)) (Seq (Lit (js ''='')) (Seq (Star (Cls isSpace))
                (Seq (Grp (OneOrMore (Cls isDot))) (Seq (Star (Cls isSpace)) Eol))))) p rest suf c1 c'"
    unfolding declRe_def matches_Bol_Seq matches_Star_Seq[of True isSpace "Seq (Lit name) _"]
      matches_Lit_Seq[of True name] matches_Star_Seq[of True isSpace "Seq (Optional _) _"]
      matches_Optional_Seq matches_annotation
    by blast+
  then obtain ws1 ws2 ann ws3 ws4 rhs ws5 where
    parts: "w = ws1 @ name @ ws2 @ ann @ ws3 @ js ''='' @ ws4 @ rhs @ ws5" "list_all isSpace ws1"
    "list_all isSpace ws2" "ann = [] \<or> typeAnnotation ann" "list_all isSpace ws3" "list_all isSpace ws4"
    "rhs \<noteq> []" "list_all isDot rhs" "list_all isSpace ws5"
    and c': "c' = Some rhs" and eol: "suf = [] \<or> isLineTerminator (hd suf)"
    unfolding matches_tail_shape by blast
  have "declarationOf name rhs w"
    unfolding declarationOf_def
    using parts
    by (intro exI[of _ ws1] exI[of _ ws2] exI[of _ ann] exI[of _ ws3] exI[of _ ws4] exI[of _ ws5])
       (simp add: js_def)
  with bol c' eol show ?R by blast
next
  assume ?R
  then obtain rhs where bol: "pre = [] \<or> isLineTerminator (hd pre)" and d: "declarationOf name rhs w"
    and c': "c' = Some rhs" and eol: "suf = [] \<or> isLineTerminator (hd suf)" by blast
  from d obtain ws1 ws2 ann ws3 ws4 ws5 where
    w0: "w = ws1 @ name @ ws2 @ ann @ ws3 @ 0x3D # ws4 @ rhs @ ws5" and s1: "list_all isSpace ws1"
    and s2: "list_all isSpace ws2" and ann: "ann = [] \<or> typeAnnotation ann"
    and rest: "list_all isSpace ws3" "list_all isSpace ws4" "rhs \<noteq> []" "list_all isDot rhs" "list_all isSpace ws5"
    unfolding declarationOf_def by blast
  from w0 have w: "w = ws1 @ name @ ws2 @ ann @ ws3 @ js ''='' @ ws4 @ rhs @ ws5"
    by (simp add: js_def)
  have 1: "\<And>p d. matches True (Seq (Star (Cls isSpace)) (Seq (Lit (js ''='')) (Seq (Star (Cls isSpace))
       (Seq (Grp (OneOrMore (Cls isDot))) (Seq (Star (Cls isSpace)) Eol))))) p
       (ws3 @ js ''='' @ ws4 @ rhs @ ws5) suf d (Some rhs)"
    unfolding matches_tail_shape using rest eol by blast
  have 2: "\<And>p d. matches True (Seq (Optional (Seq (Lit (js '':'')) (Seq (Star (Cls isSpace)) (OneOrMore (Cls notEquals)))))
       (Seq (Star (Cls isSpace)) (Seq (Lit (js ''='')) (Seq (Star (Cls isSpace))
       (Seq (Grp (OneOrMore (Cls isDot))) (Seq (Star (Cls isSpace)) Eol)))))) p
       (ann @ ws3 @ js ''='' @ ws4 @ rhs @ ws5) suf d (Some rhs)"
    unfolding matches_Optional_Seq matches_annotation using 1 ann by blast
  have 3: "\<And>p d. matches True (Seq (Star (Cls isSpace))
       (Seq (Optional (Seq (Lit (js '':'')) (Seq (Star (Cls isSpace)) (OneOrMore (Cls notEquals)))))
       (Seq (Star (Cls isSpace)) (Seq (Lit (js ''='')) (Seq (Star (Cls isSpace))
       (Seq (Grp (OneOrMore (Cls isDot))) (Seq (Star (Cls isSpace)) Eol))))))) p
       (ws2 @ ann @ ws3 @ js ''='' @ ws4 @ rhs @ ws5) suf d (Some rhs)"
    unfolding matches_Star_Seq[of True isSpace "Seq (Optional _) _"] using 2 s2 by blast
  have 4: "\<And>p d. matches True (Seq (Lit name) (Seq (Star (Cls isSpace))
       (Seq (Optional (Seq (Lit (js '':'')) (Seq (Star (Cls isSpace)) (OneOrMore (Cls notEquals)))))
       (Seq (Star (Cls isSpace)) (Seq (Lit (js ''='')) (Seq (Star (Cls isSpace))
       (Seq (Grp (OneOrMore (Cls isDot))) (Seq (Star (Cls isSpace)) Eol)))))))) p
       (name @ ws2 @ ann @ ws3 @ js ''='' @ ws4 @ rhs @ ws5) suf d (Some rhs)"
    unfolding matches_Lit_Seq using 3 by blast
  have 5: "matches True (Seq (Star (Cls isSpace)) (Seq (Lit name) (Seq (Star (Cls isSpace))
       (Seq (Optional (Seq (Lit (js '':'')) (Seq (Star (Cls isSpace)) (OneOrMore (Cls notEquals)))))
       (Seq (Star (Cls isSpace)) (Seq (Lit (js ''='')) (Seq (Star (Cls isSpace))
       (Seq (Grp (OneOrMore (Cls isDot))) (Seq (Star (Cls isSpace)) Eol))))))))) pre w suf c c'"
    unfolding matches_Star_Seq[of True isSpace "Seq (Lit name) _"] w c' using 4 s1 by blast
  with bol show ?L unfolding declRe_def matches_Bol_Seq by blast
qed

lemma line_start_rev: "(u = [] \<or> isLineTerminator (hd (rev u))) \<longleftrightarrow> (u = [] \<or> isLineTerminator (last u))"
  by (cases "u = []") (simp_all add: hd_rev)

lemma js_match_declRe_Some:
  assumes "js_match True (declRe name) content = Some raw"
  shows "\<exists>before w after. content = before @ w @ after
           \<and> (before = [] \<or> isLineTerminator (last before))
           \<and> declarationOf name raw w
           \<and> (after = [] \<or> isLineTerminator (hd after))"
proof -
  from assms obtain pre0 pre1 suf1 where ex: "regexExec True (declRe name) [] content = Some (pre0, pre1, suf1, Some raw)"
    by (auto simp: js_match_def Option.bind_eq_Some_conv)
  from regexExec_Some[OF ex] obtain u v rest where c: "content = u @ v" and p: "pre0 = rev u @ []"
    and e: "ends True (declRe name) (pre0, v, None) = (pre1, suf1, Some raw) # rest" by blast
  from ends_head[OF e] obtain w where v: "v = w @ suf1"
    and m: "matches True (declRe name) pre0 w suf1 None (Some raw)" by blast
  from m p have "(u = [] \<or> isLineTerminator (last u)) \<and> declarationOf name raw w
      \<and> (suf1 = [] \<or> isLineTerminator (hd suf1))"
    by (simp add: matches_declRe line_start_rev)
  with c v show ?thesis by blast
qed

lemma js_match_declRe_None:
  "js_match True (declRe name) content = None \<longleftrightarrow> \<not> hasDeclaration name content"
proof
  assume none: "js_match True (declRe name) content = None"
  show "\<not> hasDeclaration name content"
  proof
    assume "hasDeclaration name content"
    then obtain before w after rhs where c: "content = before @ w @ after"
      and b: "before = [] \<or> isLineTerminator (last before)" and d: "declarationOf name rhs w"
      and a: "after = [] \<or> isLineTerminator (hd after)"
      unfolding hasDeclaration_def by blast
    from b d a have "matches True (declRe name) (rev before @ []) w after None (Some rhs)"
      by (simp add: matches_declRe line_start_rev)
    from ends_complete[OF this] have ne: "ends True (declRe name) (rev before @ [], w @ after, None) \<noteq> []"
      by auto
    with c have "regexExec True (declRe name) [] content \<noteq> None"
      unfolding regexExec_None by blast
    then obtain pre0 pre1 suf1 g where ex: "regexExec True (declRe name) [] content = Some (pre0, pre1, suf1, g)"
      by (cases "regexExec True (declRe name) [] content") auto
    from regexExec_Some[OF ex] obtain v rest where "ends True (declRe name) (pre0, v, None) = (pre1, suf1, g) # rest"
      by blast
    from ends_head[OF this] obtain w' where "matches True (declRe name) pre0 w' suf1 None g" by blast
    then obtain rhs' where "g = Some rhs'" by (auto simp: matches_declRe)
    with ex have "js_match True (declRe name) content = Some rhs'" by (simp add: js_match_def)
    with none show False by simp
  qed
next
  assume no: "\<not> hasDeclaration name content"
  show "js_match True (declRe name) content = None"
  proof (cases "js_match True (declRe name) content")
    case None
    then show ?thesis .
  next
    case (Some raw)
    from js_match_declRe_Some[OF Some] have "hasDeclaration name content"
      unfolding hasDeclaration_def by blast
    with no show ?thesis by blast
  qed
qed



lemma parseMigrationFile_None:
  "parseMigrationFile baseOf content path = None \<longleftrightarrow> \<not> hasDeclaration (js ''revision'') content"
  using js_match_declRe_None[of "js ''revision''" content]
  by (cases "js_match True (declRe (js ''revision'')) content")
     (simp_all add: parseMigrationFile_def revisionRe_def Let_def)

lemma parseMigrationFile_Some:
  assumes "parseMigrationFile baseOf content path = Some node"
  shows "\<exists>raw. js_match True revisionRe content = Some raw \<and> revision node = parseRevision raw
       \<and> downRevisions node = asArrayDownRevision (js_match True downRevisionRe content)
       \<and> filePath node = path \<and> label node = parseRevision raw @ js '' ('' @ baseOf path @ js '')''"
  using assms by (auto simp: parseMigrationFile_def Let_def split: option.splits)

lemma splitLines_place:
  "l \<in> set (splitLines cur s) \<Longrightarrow>
     \<exists>before after. rev cur @ s = before @ l @ after
        \<and> (before = [] \<or> isLineTerminator (last before))
        \<and> (after = [] \<or> isLineTerminator (hd after))"
proof (induction s arbitrary: cur)
  case Nil
  then have "rev cur @ [] = [] @ l @ []" by simp
  then show ?case by blast
next
  case (Cons x xs)
  show ?case
  proof (cases "isLineTerminator x")
    case False
    with Cons.prems have "l \<in> set (splitLines (x # cur) xs)" by simp
    from Cons.IH[OF this] show ?thesis by simp
  next
    case True
    with Cons.prems consider (here) "l = rev cur" | (later) "l \<in> set (splitLines [] xs)" by auto
    then show ?thesis
    proof cases
      case here
      with True have "rev cur @ x # xs = [] @ l @ (x # xs) \<and> isLineTerminator (hd (x # xs))" by simp
      then show ?thesis by blast
    next
      case later
      from Cons.IH[OF later] obtain before after where s: "xs = before @ l @ after"
        and b: "before = [] \<or> isLineTerminator (last before)"
        and a: "after = [] \<or> isLineTerminator (hd after)" by auto
      from s have "rev cur @ x # xs = (rev cur @ x # before) @ l @ after" by simp
      moreover from b True have "isLineTerminator (last (rev cur @ x # before))" by auto
      ultimately show ?thesis using a by blast
    qed
  qed
qed

lemma js_test_declRe: "js_test True (declRe name) s \<longleftrightarrow> hasDeclaration name s"
proof
  assume "js_test True (declRe name) s"
  then obtain pre0 pre1 suf1 g where ex: "regexExec True (declRe name) [] s = Some (pre0, pre1, suf1, g)"
    by (cases "regexExec True (declRe name) [] s") (auto simp: js_test_def)
  from regexExec_Some[OF ex] obtain v rest where "ends True (declRe name) (pre0, v, None) = (pre1, suf1, g) # rest"
    by blast
  from ends_head[OF this] obtain w where "matches True (declRe name) pre0 w suf1 None g" by blast
  then obtain rhs where "g = Some rhs" by (auto simp: matches_declRe)
  with ex have "js_match True (declRe name) s = Some rhs" by (simp add: js_match_def)
  then show "hasDeclaration name s" using js_match_declRe_None[of name s] by simp
next
  assume "hasDeclaration name s"
  then have "js_match True (declRe name) s \<noteq> None" by (simp add: js_match_declRe_None)
  then show "js_test True (declRe name) s"
    by (cases "regexExec True (declRe name) [] s") (auto simp: js_match_def js_test_def)
qed

lemma hasDeclaration_line:
  assumes "l \<in> set (linesOf content)" and "hasDeclaration name l"
  shows "hasDeclaration name content"
proof -
  from splitLines_place[OF assms(1)[unfolded linesOf_def]] obtain before after where
    c: "content = before @ l @ after" and b: "before = [] \<or> isLineTerminator (last before)"
    and a: "after = [] \<or> isLineTerminator (hd after)" by auto
  from assms(2) obtain b' w a' rhs where l: "l = b' @ w @ a'"
    and b': "b' = [] \<or> isLineTerminator (last b')" and d: "declarationOf name rhs w"
    and a': "a' = [] \<or> isLineTerminator (hd a')"
    unfolding hasDeclaration_def by blast
  from c l have "content = (before @ b') @ w @ (a' @ after)" by simp
  moreover from b b' have "before @ b' = [] \<or> isLineTerminator (last (before @ b'))"
    by (cases "b' = []") auto
  moreover from a a' have "a' @ after = [] \<or> isLineTerminator (hd (a' @ after))"
    by (cases "a' = []") auto
  ultimately show ?thesis using d unfolding hasDeclaration_def by blast
qed

lemma parents_empty_iff:
  assumes "parseMigrationFile baseOf content path = Some node"
  shows "downRevisions node = [] \<longleftrightarrow>
     (\<not> hasDeclaration (js ''down_revision'') content
      \<or> (\<exists>raw. js_match True downRevisionRe content = Some raw
            \<and> (isNoneText (normalizeRhs raw) \<or> unreadable (normalizeRhs raw))))"
proof (cases "js_match True downRevisionRe content")
  case None
  then have "\<not> hasDeclaration (js ''down_revision'') content"
    by (simp add: downRevisionRe_def js_match_declRe_None)
  moreover from parseMigrationFile_Some[OF assms] None have "downRevisions node = []"
    by (auto simp: asArrayDownRevision_def)
  ultimately show ?thesis by simp
next
  case (Some raw)
  then have h: "hasDeclaration (js ''down_revision'') content"
    using js_match_declRe_None[of "js ''down_revision''" content] by (simp add: downRevisionRe_def)
  from parseMigrationFile_Some[OF assms] Some have "downRevisions node = asArrayDownRevision (Some raw)"
    by auto
  then have "downRevisions node = [] \<longleftrightarrow> isNoneText (normalizeRhs raw) \<or> unreadable (normalizeRhs raw)"
    by (auto simp: asArrayDownRevision_direct unreadable_def Let_def)
  with h Some show ?thesis by simp
qed

lemma declRe_captures: "js_test True (declRe name) s \<longleftrightarrow> js_match True (declRe name) s \<noteq> None"
  by (simp add: js_test_declRe js_match_declRe_None)

section \<open>Properties of the graph engine\<close>

subsection \<open>Sets and maps of the language\<close>

lemma set_Set_add: "set (Set_add x s) = insert x (set s)"
  by (auto simp: Set_add_def)

lemma distinct_Set_add: "distinct s \<Longrightarrow> distinct (Set_add x s)"
  by (simp add: Set_add_def)

lemma foldl_Set_add:
  "set (foldl (\<lambda>s x. Set_add x s) acc xs) = set acc \<union> set xs
   \<and> (distinct acc \<longrightarrow> distinct (foldl (\<lambda>s x. Set_add x s) acc xs))"
  by (induction xs arbitrary: acc) (auto simp: set_Set_add distinct_Set_add)

lemma set_uniq: "set (uniq xs) = set xs"
  using foldl_Set_add[of "[]" xs] by (simp add: uniq_def)

lemma distinct_uniq: "distinct (uniq xs)"
  using foldl_Set_add[of "[]" xs] by (simp add: uniq_def)

subsection \<open>The index pass\<close>

lemma foldl_update_lookup:
  "map_of (foldl (\<lambda>m n. AList.update (revision n) n m) m0 ns) k =
     (if filter (\<lambda>n. revision n = k) ns = [] then map_of m0 k
      else Some (last (filter (\<lambda>n. revision n = k) ns)))"
  by (induction ns arbitrary: m0) (auto simp: update_conv')

lemma foldl_update_keys:
  "set (map fst (foldl (\<lambda>m n. AList.update (revision n) n m) m0 ns)) = set (map fst m0) \<union> revision ` set ns"
  by (induction ns arbitrary: m0) (auto simp: dom_update)

lemma foldl_update_distinct:
  "distinct (map fst m0) \<Longrightarrow> distinct (map fst (foldl (\<lambda>m n. AList.update (revision n) n m) m0 ns))"
  by (induction ns arbitrary: m0) (auto simp: distinct_update)

lemma indexNodes_lookup:
  "map_of (indexNodes parsed) k =
     (if filter (\<lambda>n. revision n = k) parsed = [] then None
      else Some (last (filter (\<lambda>n. revision n = k) parsed)))"
  by (simp add: indexNodes_def foldl_update_lookup)

lemma indexNodes_keys: "fst ` set (indexNodes parsed) = revision ` set parsed"
  using foldl_update_keys[of "[]" parsed] by (simp add: indexNodes_def)

lemma indexNodes_distinct: "distinct (map fst (indexNodes parsed))"
  by (simp add: indexNodes_def foldl_update_distinct)

lemma indexNodes_entry:
  assumes "(k, n) \<in> set (indexNodes parsed)"
  shows "revision n = k \<and> n \<in> set parsed"
proof -
  have "map_of (indexNodes parsed) k = Some n"
    using assms indexNodes_distinct by simp
  then have ne: "filter (\<lambda>x. revision x = k) parsed \<noteq> []"
    and n: "n = last (filter (\<lambda>x. revision x = k) parsed)"
    by (auto simp: indexNodes_lookup split: if_splits)
  from ne have "last (filter (\<lambda>x. revision x = k) parsed) \<in> set (filter (\<lambda>x. revision x = k) parsed)"
    by (rule last_in_set)
  with n show ?thesis by simp
qed

lemma alist_single_entry:
  "distinct (map fst m) \<Longrightarrow> map_of m k = Some v \<Longrightarrow> filter (\<lambda>(k', v'). k' = k) m = [(k, v)]"
proof (induction m)
  case Nil
  then show ?case by simp
next
  case (Cons p m)
  obtain k' v' where p: "p = (k', v')" by (cases p)
  show ?case
  proof (cases "k' = k")
    case True
    with Cons.prems p have "v' = v" and "k \<notin> fst ` set m" by auto
    then have "filter (\<lambda>(k', v'). k' = k) m = []"
      by (force simp: filter_empty_conv)
    with True p \<open>v' = v\<close> show ?thesis by simp
  next
    case False
    with Cons p show ?thesis by simp
  qed
qed

subsection \<open>The referenced and the missing parents\<close>

lemma scanParents_inner:
  "foldl (\<lambda>(r, ms) p. (Set_add p r, if p \<in> K then ms else Set_add p ms)) (r0, ms0) ps = (r1, ms1)
   \<Longrightarrow> set r1 = set r0 \<union> set ps \<and> set ms1 = set ms0 \<union> {p \<in> set ps. p \<notin> K}"
  by (induction ps arbitrary: r0 ms0) (auto simp: set_Set_add split: if_splits)

lemma scanParents_outer:
  "foldl (\<lambda>acc n. foldl (\<lambda>(r, ms) p. (Set_add p r, if p \<in> K then ms else Set_add p ms)) acc (downRevisions n))
      (r0, ms0) ns = (r1, ms1)
   \<Longrightarrow> set r1 = set r0 \<union> (\<Union>n \<in> set ns. set (downRevisions n))
     \<and> set ms1 = set ms0 \<union> {p \<in> (\<Union>n \<in> set ns. set (downRevisions n)). p \<notin> K}"
proof (induction ns arbitrary: r0 ms0)
  case Nil
  then show ?case by simp
next
  case (Cons n ns)
  obtain r' ms' where step:
    "foldl (\<lambda>(r, ms) p. (Set_add p r, if p \<in> K then ms else Set_add p ms)) (r0, ms0) (downRevisions n) = (r', ms')"
    by (cases "foldl (\<lambda>(r, ms) p. (Set_add p r, if p \<in> K then ms else Set_add p ms)) (r0, ms0) (downRevisions n)")
  from scanParents_inner[OF step]
  have a: "set r' = set r0 \<union> set (downRevisions n)" "set ms' = set ms0 \<union> {p \<in> set (downRevisions n). p \<notin> K}"
    by simp_all
  from Cons.prems step have "foldl (\<lambda>acc n. foldl (\<lambda>(r, ms) p. (Set_add p r, if p \<in> K then ms else Set_add p ms)) acc (downRevisions n))
      (r', ms') ns = (r1, ms1)" by simp
  from Cons.IH[OF this] a show ?case by auto
qed

lemma scanParents_sets:
  assumes "scanParents nodesById = (referenced, missing)"
  shows "set referenced = (\<Union>n \<in> set (map snd nodesById). set (downRevisions n))"
    and "set missing = {p \<in> (\<Union>n \<in> set (map snd nodesById). set (downRevisions n)). p \<notin> set (map fst nodesById)}"
  using scanParents_outer[of "set (map fst nodesById)" "[]" "[]" "map snd nodesById" referenced missing] assms
  by (simp_all add: scanParents_def)

subsection \<open>The fields after a rebuild\<close>

lemma rebuildGraph_nodes: "nodesByRevision (rebuildGraph parsed this) = indexNodes parsed"
  by (simp add: rebuildGraph_def Let_def split: prod.splits)

lemma rebuildGraph_children: "childrenByParent (rebuildGraph parsed this) = sortChildren (indexChildren parsed)"
  by (simp add: rebuildGraph_def Let_def split: prod.splits)

lemma rebuildGraph_heads:
  "heads (rebuildGraph parsed this) =
     sort (filter (\<lambda>r. r \<notin> set (fst (scanParents (indexNodes parsed)))) (map fst (indexNodes parsed)))"
  by (simp add: rebuildGraph_def Let_def split: prod.splits)

lemma rebuildGraph_bases:
  "bases (rebuildGraph parsed this) =
     sort (map revision (filter (\<lambda>n. length (downRevisions n) = 0) (map snd (indexNodes parsed))))"
  by (simp add: rebuildGraph_def Let_def split: prod.splits)

lemma rebuildGraph_missing:
  "missingParents (rebuildGraph parsed this) = sort (snd (scanParents (indexNodes parsed)))"
  by (simp add: rebuildGraph_def Let_def split: prod.splits)

lemma rebuildGraph_cache: "itemCache (rebuildGraph parsed this) = []"
  by (simp add: rebuildGraph_def Let_def split: prod.splits)

lemma set_heads:
  "set (heads (rebuildGraph parsed this)) =
     {r \<in> revision ` set parsed. \<forall>n \<in> set (map snd (indexNodes parsed)). r \<notin> set (downRevisions n)}"
proof -
  obtain referenced missing where sp: "scanParents (indexNodes parsed) = (referenced, missing)"
    by (cases "scanParents (indexNodes parsed)")
  show ?thesis
    using scanParents_sets(1)[OF sp] indexNodes_keys[of parsed]
    by (auto simp: rebuildGraph_heads sp)
qed

lemma set_missingParents:
  "set (missingParents (rebuildGraph parsed this)) =
     {p \<in> (\<Union>n \<in> set (map snd (indexNodes parsed)). set (downRevisions n)). p \<notin> revision ` set parsed}"
proof -
  obtain referenced missing where sp: "scanParents (indexNodes parsed) = (referenced, missing)"
    by (cases "scanParents (indexNodes parsed)")
  show ?thesis
    using scanParents_sets(2)[OF sp] indexNodes_keys[of parsed]
    by (simp add: rebuildGraph_missing sp)
qed

subsection \<open>The adjacency pass\<close>

lemma update_map_snd:
  "k \<notin> set (map fst done) \<Longrightarrow>
   AList.update k v (done @ (k, v0) # rest) = done @ (k, v) # rest"
  by (induction "done") auto

lemma sortChildren_steps:
  "distinct (map fst (done @ todo)) \<Longrightarrow>
   foldl (\<lambda>acc (k, v). AList.update k (f v) acc) (map (\<lambda>(k, v). (k, f v)) done @ todo) todo
     = map (\<lambda>(k, v). (k, f v)) (done @ todo)"
proof (induction todo arbitrary: "done")
  case Nil
  then show ?case by simp
next
  case (Cons p todo)
  obtain k v where p: "p = (k, v)" by (cases p)
  from Cons.prems p have notin: "k \<notin> set (map fst (map (\<lambda>(k, v). (k, f v)) done))"
    by (auto simp: image_iff)
  have step: "AList.update k (f v) (map (\<lambda>(k, v). (k, f v)) done @ (k, v) # todo)
      = map (\<lambda>(k, v). (k, f v)) (done @ [(k, v)]) @ todo"
    using update_map_snd[OF notin, of "f v" v todo] by simp
  from Cons.prems p have d: "distinct (map fst ((done @ [(k, v)]) @ todo))" by simp
  show ?case
    using Cons.IH[OF d] by (simp add: p step)
qed

lemma sortChildren_map:
  "distinct (map fst m) \<Longrightarrow> sortChildren m = map (\<lambda>(k, v). (k, sort (uniq v))) m"
  using sortChildren_steps[of "[]" m "\<lambda>v. sort (uniq v)"] by (simp add: sortChildren_def)

lemma addChild_keys: "distinct (map fst m) \<Longrightarrow> distinct (map fst (addChild c m p))"
  by (simp add: addChild_def distinct_update)

lemma addChild_lookup:
  "map_of (addChild c m p) q =
     (if q = p then Some ((case map_of m p of None \<Rightarrow> [] | Some e \<Rightarrow> e) @ [c]) else map_of m q)"
  by (simp add: addChild_def update_conv')

lemma addChild_fold:
  "distinct (map fst m) \<Longrightarrow>
   distinct (map fst (foldl (addChild c) m ps))
   \<and> set (childrenOf (foldl (addChild c) m ps) q) = set (childrenOf m q) \<union> (if q \<in> set ps then {c} else {})
   \<and> (q \<in> set (map fst (foldl (addChild c) m ps))) = (q \<in> set (map fst m) \<or> q \<in> set ps)"
proof (induction ps arbitrary: m)
  case Nil
  then show ?case by simp
next
  case (Cons p ps)
  have d: "distinct (map fst (addChild c m p))" using Cons.prems by (rule addChild_keys)
  have k: "set (childrenOf (addChild c m p) q) = set (childrenOf m q) \<union> (if q = p then {c} else {})"
    by (auto simp: childrenOf_def addChild_lookup split: option.splits)
  have dm: "(q \<in> set (map fst (addChild c m p))) = (q \<in> set (map fst m) \<or> q = p)"
    using dom_update[of p _ m] by (auto simp: addChild_def Let_def)
  from Cons.IH[OF d] k dm show ?case by auto
qed

lemma indexChildren_fold:
  "distinct (map fst m) \<Longrightarrow>
   distinct (map fst (foldl (\<lambda>m n. foldl (addChild (revision n)) m (downRevisions n)) m ns))
   \<and> set (childrenOf (foldl (\<lambda>m n. foldl (addChild (revision n)) m (downRevisions n)) m ns) q)
       = set (childrenOf m q) \<union> {revision n |n. n \<in> set ns \<and> q \<in> set (downRevisions n)}
   \<and> (q \<in> set (map fst (foldl (\<lambda>m n. foldl (addChild (revision n)) m (downRevisions n)) m ns)))
       = (q \<in> set (map fst m) \<or> (\<exists>n \<in> set ns. q \<in> set (downRevisions n)))"
proof (induction ns arbitrary: m)
  case Nil
  then show ?case by simp
next
  case (Cons n ns)
  note step = addChild_fold[OF Cons.prems, of "revision n" "downRevisions n" q]
  from step have d: "distinct (map fst (foldl (addChild (revision n)) m (downRevisions n)))" by simp
  from Cons.IH[OF d] step show ?case by auto
qed

lemma indexChildren_distinct: "distinct (map fst (indexChildren parsed))"
  using indexChildren_fold[of "[]" parsed] by (simp add: indexChildren_def)

lemma indexChildren_childrenOf:
  "set (childrenOf (indexChildren parsed) q) = {revision n |n. n \<in> set parsed \<and> q \<in> set (downRevisions n)}"
proof -
  have "childrenOf [] q = []" by (simp add: childrenOf_def)
  with indexChildren_fold[of "[]" parsed q] show ?thesis by (simp add: indexChildren_def)
qed

lemma indexChildren_keys:
  "(q \<in> set (map fst (indexChildren parsed))) = (\<exists>n \<in> set parsed. q \<in> set (downRevisions n))"
  using indexChildren_fold[of "[]" parsed q] by (simp add: indexChildren_def)

lemma children_entries:
  "childrenByParent (rebuildGraph parsed this) = map (\<lambda>(k, v). (k, sort (uniq v))) (indexChildren parsed)"
  by (simp add: rebuildGraph_children sortChildren_map indexChildren_distinct)

lemma children_lookup:
  "map_of (childrenByParent (rebuildGraph parsed this)) p = map_option (\<lambda>v. sort (uniq v)) (map_of (indexChildren parsed) p)"
  by (simp add: children_entries map_of_map)

lemma set_bases:
  "set (bases (rebuildGraph parsed this)) =
     {revision n |n. n \<in> set (map snd (nodesByRevision (rebuildGraph parsed this))) \<and> downRevisions n = []}"
  by (auto simp: rebuildGraph_bases rebuildGraph_nodes)

lemma children_sorted_distinct:
  assumes "(p, cs) \<in> set (childrenByParent (rebuildGraph parsed this))"
  shows "distinct cs \<and> sorted cs \<and> set cs = {revision x |x. x \<in> set parsed \<and> p \<in> set (downRevisions x)}"
proof -
  from assms obtain v where v: "(p, v) \<in> set (indexChildren parsed)" and cs: "cs = sort (uniq v)"
    by (auto simp: children_entries)
  from v have "map_of (indexChildren parsed) p = Some v"
    using indexChildren_distinct by simp
  then have "childrenOf (indexChildren parsed) p = v" by (simp add: childrenOf_def)
  with indexChildren_childrenOf[of parsed p] have "set v = {revision x |x. x \<in> set parsed \<and> p \<in> set (downRevisions x)}"
    by simp
  with cs show ?thesis by (simp add: set_uniq distinct_uniq)
qed

lemma childrenOf_rebuilt:
  "set (childrenOf (childrenByParent (rebuildGraph parsed this)) p)
     = {revision n |n. n \<in> set parsed \<and> p \<in> set (downRevisions n)}"
proof -
  have "set (childrenOf (childrenByParent (rebuildGraph parsed this)) p) = set (childrenOf (indexChildren parsed) p)"
    by (simp add: childrenOf_def children_lookup set_uniq split: option.splits)
  then show ?thesis by (simp add: indexChildren_childrenOf)
qed

lemma edges_of_graph:
  "e \<in> set (edges (getGraphData this)) \<longleftrightarrow>
     (\<exists>n \<in> set (map snd (nodesByRevision this)). edgeTo e = revision n \<and> edgeFrom e \<in> set (downRevisions n))"
  by (cases e) (auto simp: getGraphData_def)


section \<open>Evaluation of the model on concrete inputs\<close>

text \<open>The equations that run the parser and the graph engine on a literal input.\<close>

lemmas parser_eval = ends.simps(8) scanGlobal.simps js_def js_trim_def js_replace_def js_matchAll_def js_test_def js_match_def
  isSpace_def isLineTerminator_def isDot_def isQuote_def notQuote_def notEquals_def isWordChar_def canonicalize_def
  OneOrMore_def Optional_def commentRe_def spacesRe_def noneRe_def quotedRe_def tokenRe_def bareRe_def
  edgeQuoteRe_def declRe_def revisionRe_def downRevisionRe_def
  stripInlineComment_def normalizeRhs_def asArrayDownRevision_def parseRevision_def parseMigrationFile_def
  collectParsed_def

lemmas graph_eval = rebuildGraph_def indexNodes_def indexChildren_def addChild_def sortChildren_def
  scanParents_def Set_add_def uniq_def getGraphData_def renderedEdges_def newProvider_def childrenOf_def js_def

lemmas direct_eval = normalizeRhs_direct asArrayDownRevision_direct parseRevision_direct
  commentAhead_def tokenAhead_def isNoneText_def isQuotedLiteral_def isBareToken_def
  stripEdgeQuotes_def js_trim_def js_def canonicalize_def
  isSpace_def isLineTerminator_def isDot_def isQuote_def notQuote_def notEquals_def isWordChar_def

section \<open>Claims about the graph engine\<close>

text \<open>
  Claim C8 (last write wins). When a node of the input sequence has an identifier, the
  index built by \<open>rebuildGraph\<close> maps that identifier to the latest node of the sequence
  that carries it; the index has exactly one entry under that key and exactly one stored
  node with that identifier, namely that latest node. The build is a total function: no
  input raises an error.
\<close>

theorem last_write_wins:
  assumes "n \<in> set parsed"
  shows "map_of (nodesByRevision (rebuildGraph parsed this)) (revision n)
           = Some (last (filter (\<lambda>x. revision x = revision n) parsed))
       \<and> filter (\<lambda>(k, v). k = revision n) (nodesByRevision (rebuildGraph parsed this))
           = [(revision n, last (filter (\<lambda>x. revision x = revision n) parsed))]
       \<and> filter (\<lambda>v. revision v = revision n) (map snd (nodesByRevision (rebuildGraph parsed this)))
           = [last (filter (\<lambda>x. revision x = revision n) parsed)]"
proof -
  let ?latest = "last (filter (\<lambda>x. revision x = revision n) parsed)"
  from assms have ne: "filter (\<lambda>x. revision x = revision n) parsed \<noteq> []"
    by (auto simp: filter_empty_conv)
  then have look: "map_of (indexNodes parsed) (revision n) = Some ?latest"
    by (simp add: indexNodes_lookup)
  have one: "filter (\<lambda>(k, v). k = revision n) (indexNodes parsed) = [(revision n, ?latest)]"
    using indexNodes_distinct look by (rule alist_single_entry)
  have same: "filter (\<lambda>(k, v). revision v = revision n) (indexNodes parsed)
      = filter (\<lambda>(k, v). k = revision n) (indexNodes parsed)"
    by (rule filter_cong) (auto dest: indexNodes_entry)
  have "filter (\<lambda>v. revision v = revision n) (map snd (indexNodes parsed))
      = map snd (filter (\<lambda>(k, v). revision v = revision n) (indexNodes parsed))"
    by (simp add: filter_map comp_def split_def)
  with one same have vals: "filter (\<lambda>v. revision v = revision n) (map snd (indexNodes parsed)) = [?latest]"
    by simp
  show ?thesis
    using look one vals by (simp add: rebuildGraph_nodes)
qed

theorem last_write_wins_witness:
  "map_of (nodesByRevision (rebuildGraph
       [\<lparr>revision = js ''x'', downRevisions = [js ''a''], filePath = js ''1.py'', label = js ''x (1)''\<rparr>,
        \<lparr>revision = js ''x'', downRevisions = [], filePath = js ''2.py'', label = js ''x (2)''\<rparr>]
       newProvider)) (js ''x'')
     = Some \<lparr>revision = js ''x'', downRevisions = [], filePath = js ''2.py'', label = js ''x (2)''\<rparr>
   \<and> length (nodesByRevision (rebuildGraph
       [\<lparr>revision = js ''x'', downRevisions = [js ''a''], filePath = js ''1.py'', label = js ''x (1)''\<rparr>,
        \<lparr>revision = js ''x'', downRevisions = [], filePath = js ''2.py'', label = js ''x (2)''\<rparr>]
       newProvider)) = 1"
  using last_write_wins[of "\<lparr>revision = js ''x'', downRevisions = [], filePath = js ''2.py'', label = js ''x (2)''\<rparr>"
      "[\<lparr>revision = js ''x'', downRevisions = [js ''a''], filePath = js ''1.py'', label = js ''x (1)''\<rparr>,
        \<lparr>revision = js ''x'', downRevisions = [], filePath = js ''2.py'', label = js ''x (2)''\<rparr>]" newProvider]
  by (simp add: graph_eval)

text \<open>
  Claim C7 (head correctness). After a build, every identifier in \<open>heads\<close> is a key of the
  index, and no node stored in the index has it among its parents.
\<close>

theorem head_correctness:
  assumes "h \<in> set (heads (rebuildGraph parsed this))"
  shows "h \<in> set (map fst (nodesByRevision (rebuildGraph parsed this)))
       \<and> (\<forall>n \<in> set (map snd (nodesByRevision (rebuildGraph parsed this))). h \<notin> set (downRevisions n))"
  using assms by (simp add: set_heads rebuildGraph_nodes indexNodes_keys)

theorem head_correctness_witness:
  "js ''b2'' \<in> set (heads (rebuildGraph
       [\<lparr>revision = js ''a1'', downRevisions = [], filePath = js ''1.py'', label = js ''a1 (1)''\<rparr>,
        \<lparr>revision = js ''b2'', downRevisions = [js ''a1''], filePath = js ''2.py'', label = js ''b2 (2)''\<rparr>]
       newProvider))
   \<and> js ''b2'' \<in> set (map fst (nodesByRevision (rebuildGraph
       [\<lparr>revision = js ''a1'', downRevisions = [], filePath = js ''1.py'', label = js ''a1 (1)''\<rparr>,
        \<lparr>revision = js ''b2'', downRevisions = [js ''a1''], filePath = js ''2.py'', label = js ''b2 (2)''\<rparr>]
       newProvider)))
   \<and> list_all (\<lambda>n. js ''b2'' \<notin> set (downRevisions n)) (map snd (nodesByRevision (rebuildGraph
       [\<lparr>revision = js ''a1'', downRevisions = [], filePath = js ''1.py'', label = js ''a1 (1)''\<rparr>,
        \<lparr>revision = js ''b2'', downRevisions = [js ''a1''], filePath = js ''2.py'', label = js ''b2 (2)''\<rparr>]
       newProvider)))"
  using head_correctness[of "js ''b2''"
      "[\<lparr>revision = js ''a1'', downRevisions = [], filePath = js ''1.py'', label = js ''a1 (1)''\<rparr>,
        \<lparr>revision = js ''b2'', downRevisions = [js ''a1''], filePath = js ''2.py'', label = js ''b2 (2)''\<rparr>]"
      newProvider]
  by (simp add: graph_eval)

text \<open>
  Claim C1 (edge soundness), as amended. \<open>getGraphData\<close> emits an edge for every parent of
  every stored node, resolved or not, and nothing else: the edges are exactly the pairs of
  a parent listed by a stored node and that node. Hence the target of an edge is always a
  key of the index, and its source is a key of the index or a member of \<open>missingParents\<close>.
  The edges with an unresolved source are dropped by the consumer,
  \<^verbatim>\<open>openMigrationGraphWebview\<close>: an edge of \<open>getGraphData\<close> is rendered exactly when its source
  is a key of the index.
\<close>

theorem edge_endpoints:
  "(e \<in> set (edges (getGraphData (rebuildGraph parsed this))) \<longleftrightarrow>
      (\<exists>n \<in> set (map snd (nodesByRevision (rebuildGraph parsed this))).
          edgeTo e = revision n \<and> edgeFrom e \<in> set (downRevisions n)))
   \<and> (e \<in> set (edges (getGraphData (rebuildGraph parsed this))) \<longrightarrow>
        edgeTo e \<in> set (map fst (nodesByRevision (rebuildGraph parsed this)))
        \<and> (edgeFrom e \<in> set (map fst (nodesByRevision (rebuildGraph parsed this)))
             \<or> edgeFrom e \<in> set (missingParents (rebuildGraph parsed this)))
        \<and> (e \<in> set (renderedEdges (getGraphData (rebuildGraph parsed this)))
             \<longleftrightarrow> edgeFrom e \<in> set (map fst (nodesByRevision (rebuildGraph parsed this)))))"
proof (intro conjI impI)
  show "e \<in> set (edges (getGraphData (rebuildGraph parsed this))) \<longleftrightarrow>
      (\<exists>n \<in> set (map snd (nodesByRevision (rebuildGraph parsed this))).
          edgeTo e = revision n \<and> edgeFrom e \<in> set (downRevisions n))"
    by (rule edges_of_graph)
next
  assume mem: "e \<in> set (edges (getGraphData (rebuildGraph parsed this)))"
  then obtain k n where kn: "(k, n) \<in> set (indexNodes parsed)"
    and to: "edgeTo e = revision n" and frm: "edgeFrom e \<in> set (downRevisions n)"
    by (auto simp: edges_of_graph rebuildGraph_nodes)
  from indexNodes_entry[OF kn] have "revision n \<in> revision ` set parsed" by auto
  with to show a: "edgeTo e \<in> set (map fst (nodesByRevision (rebuildGraph parsed this)))"
    by (simp add: rebuildGraph_nodes indexNodes_keys)
  show "edgeFrom e \<in> set (map fst (nodesByRevision (rebuildGraph parsed this)))
            \<or> edgeFrom e \<in> set (missingParents (rebuildGraph parsed this))"
    using kn frm by (force simp: set_missingParents rebuildGraph_nodes indexNodes_keys)
  show "e \<in> set (renderedEdges (getGraphData (rebuildGraph parsed this)))
            \<longleftrightarrow> edgeFrom e \<in> set (map fst (nodesByRevision (rebuildGraph parsed this)))"
    using mem a by (auto simp: renderedEdges_def getGraphData_def)
qed

text \<open>
  The claim as stated (every edge returned by \<open>getGraphData\<close> has both ends in the index)
  fails for a single node \<^verbatim>\<open>d4\<close> whose parent \<^verbatim>\<open>zzz\<close> has no file: the edge from
  \<^verbatim>\<open>zzz\<close> to \<^verbatim>\<open>d4\<close> is returned.
\<close>

theorem edge_endpoints_counterexample:
  "edges (getGraphData (rebuildGraph
       [\<lparr>revision = js ''d4'', downRevisions = [js ''zzz''], filePath = js ''4.py'', label = js ''d4 (4)''\<rparr>]
       newProvider))
     = [\<lparr>edgeFrom = js ''zzz'', edgeTo = js ''d4''\<rparr>]
   \<and> js ''zzz'' \<notin> set (map fst (nodes (getGraphData (rebuildGraph
       [\<lparr>revision = js ''d4'', downRevisions = [js ''zzz''], filePath = js ''4.py'', label = js ''d4 (4)''\<rparr>]
       newProvider))))"
  by (simp add: graph_eval)

theorem edge_endpoints_witness:
  "edges (getGraphData (rebuildGraph
       [\<lparr>revision = js ''a'', downRevisions = [], filePath = js ''a.py'', label = js ''a (a)''\<rparr>,
        \<lparr>revision = js ''c'', downRevisions = [js ''a'', js ''zzz''], filePath = js ''c.py'', label = js ''c (c)''\<rparr>]
       newProvider))
     = [\<lparr>edgeFrom = js ''a'', edgeTo = js ''c''\<rparr>, \<lparr>edgeFrom = js ''zzz'', edgeTo = js ''c''\<rparr>]
   \<and> missingParents (rebuildGraph
       [\<lparr>revision = js ''a'', downRevisions = [], filePath = js ''a.py'', label = js ''a (a)''\<rparr>,
        \<lparr>revision = js ''c'', downRevisions = [js ''a'', js ''zzz''], filePath = js ''c.py'', label = js ''c (c)''\<rparr>]
       newProvider) = [js ''zzz'']
   \<and> renderedEdges (getGraphData (rebuildGraph
       [\<lparr>revision = js ''a'', downRevisions = [], filePath = js ''a.py'', label = js ''a (a)''\<rparr>,
        \<lparr>revision = js ''c'', downRevisions = [js ''a'', js ''zzz''], filePath = js ''c.py'', label = js ''c (c)''\<rparr>]
       newProvider)) = [\<lparr>edgeFrom = js ''a'', edgeTo = js ''c''\<rparr>]"
  using edge_endpoints[of "\<lparr>edgeFrom = js ''zzz'', edgeTo = js ''c''\<rparr>"
      "[\<lparr>revision = js ''a'', downRevisions = [], filePath = js ''a.py'', label = js ''a (a)''\<rparr>,
        \<lparr>revision = js ''c'', downRevisions = [js ''a'', js ''zzz''], filePath = js ''c.py'', label = js ''c (c)''\<rparr>]"
      newProvider]
  by (simp add: graph_eval)

text \<open>
  Claim C2 (no duplicate parents), as amended. A node is stored in the index exactly as
  the parser returned it, so its parent list keeps every repetition. What the build
  de-duplicates is each child list of \<open>childrenByParent\<close>: it is sorted, free of
  repetitions, and holds the identifiers of the parsed nodes that name the key as a
  parent.
\<close>

theorem children_deduplicated:
  "((k, n) \<in> set (nodesByRevision (rebuildGraph parsed this)) \<longrightarrow> n \<in> set parsed)
   \<and> ((p, cs) \<in> set (childrenByParent (rebuildGraph parsed this)) \<longrightarrow>
        distinct cs \<and> sorted cs
        \<and> set cs = {revision x |x. x \<in> set parsed \<and> p \<in> set (downRevisions x)})"
  using indexNodes_entry[of k n parsed] children_sorted_distinct[of p cs parsed this]
  by (simp add: rebuildGraph_nodes)

text \<open>
  The claim as stated fails for a file that declares \<^verbatim>\<open>down_revision = ('a', 'a')\<close>: after
  parsing and indexing, the stored node lists the parent \<^verbatim>\<open>a\<close> twice.
\<close>

theorem parents_deduplicated_counterexample:
  "map (\<lambda>(k, n). (k, downRevisions n))
     (nodesByRevision (rebuildGraph
        (collectParsed (\<lambda>path. path)
           [(js ''b.py'', Some (js ''revision = 'b'\<newline>down_revision = ('a', 'a')''))])
        newProvider))
   = [(js ''b'', [js ''a'', js ''a''])]"
  by (simp add: parser_eval graph_eval)

theorem children_deduplicated_witness:
  "nodesByRevision (rebuildGraph
      [\<lparr>revision = js ''b'', downRevisions = [js ''a'', js ''a''], filePath = js ''b.py'', label = js ''b (b)''\<rparr>]
      newProvider)
     = [(js ''b'', \<lparr>revision = js ''b'', downRevisions = [js ''a'', js ''a''], filePath = js ''b.py'', label = js ''b (b)''\<rparr>)]
   \<and> childrenByParent (rebuildGraph
      [\<lparr>revision = js ''b'', downRevisions = [js ''a'', js ''a''], filePath = js ''b.py'', label = js ''b (b)''\<rparr>]
      newProvider)
     = [(js ''a'', [js ''b''])]
   \<and> distinct [js ''b'']"
  using children_deduplicated[of "js ''b''"
      "\<lparr>revision = js ''b'', downRevisions = [js ''a'', js ''a''], filePath = js ''b.py'', label = js ''b (b)''\<rparr>"
      "[\<lparr>revision = js ''b'', downRevisions = [js ''a'', js ''a''], filePath = js ''b.py'', label = js ''b (b)''\<rparr>]"
      newProvider "js ''a''" "[js ''b'']"]
  by (simp add: graph_eval)

text \<open>
  Claim C4 (duplicate identifiers and the adjacency index). The children of an identifier
  are collected from every node of the input sequence, also from one that a later node
  with the same identifier has overwritten in the index, while \<open>heads\<close>, \<open>bases\<close> and
  \<open>missingParents\<close> are computed from the nodes stored in the index only. For the input
  \<^verbatim>\<open>x\<close> with parent \<^verbatim>\<open>a\<close>, then \<^verbatim>\<open>x\<close> without parents, then \<^verbatim>\<open>a\<close>, the identifier
  \<^verbatim>\<open>a\<close> is a head and has the child \<^verbatim>\<open>x\<close>.
\<close>

theorem heads_with_children:
  "set (childrenOf (childrenByParent (rebuildGraph parsed this)) p)
     = {revision n |n. n \<in> set parsed \<and> p \<in> set (downRevisions n)}
   \<and> set (heads (rebuildGraph parsed this))
     = {r \<in> set (map fst (nodesByRevision (rebuildGraph parsed this))).
          \<forall>n \<in> set (map snd (nodesByRevision (rebuildGraph parsed this))). r \<notin> set (downRevisions n)}
   \<and> set (bases (rebuildGraph parsed this))
     = {revision n |n. n \<in> set (map snd (nodesByRevision (rebuildGraph parsed this))) \<and> downRevisions n = []}
   \<and> set (missingParents (rebuildGraph parsed this))
     = {q \<in> (\<Union>n \<in> set (map snd (nodesByRevision (rebuildGraph parsed this))). set (downRevisions n)).
          q \<notin> set (map fst (nodesByRevision (rebuildGraph parsed this)))}
   \<and> js ''a'' \<in> set (heads (rebuildGraph
        [\<lparr>revision = js ''x'', downRevisions = [js ''a''], filePath = js ''1.py'', label = js ''x (1)''\<rparr>,
         \<lparr>revision = js ''x'', downRevisions = [], filePath = js ''2.py'', label = js ''x (2)''\<rparr>,
         \<lparr>revision = js ''a'', downRevisions = [], filePath = js ''3.py'', label = js ''a (3)''\<rparr>]
        newProvider))
   \<and> childrenOf (childrenByParent (rebuildGraph
        [\<lparr>revision = js ''x'', downRevisions = [js ''a''], filePath = js ''1.py'', label = js ''x (1)''\<rparr>,
         \<lparr>revision = js ''x'', downRevisions = [], filePath = js ''2.py'', label = js ''x (2)''\<rparr>,
         \<lparr>revision = js ''a'', downRevisions = [], filePath = js ''3.py'', label = js ''a (3)''\<rparr>]
        newProvider)) (js ''a'') = [js ''x'']"
proof -
  have general: "set (childrenOf (childrenByParent (rebuildGraph parsed this)) p)
     = {revision n |n. n \<in> set parsed \<and> p \<in> set (downRevisions n)}"
    by (rule childrenOf_rebuilt)
  have hd: "set (heads (rebuildGraph parsed this))
     = {r \<in> set (map fst (nodesByRevision (rebuildGraph parsed this))).
          \<forall>n \<in> set (map snd (nodesByRevision (rebuildGraph parsed this))). r \<notin> set (downRevisions n)}"
    by (simp add: set_heads rebuildGraph_nodes indexNodes_keys)
  have ms: "set (missingParents (rebuildGraph parsed this))
     = {q \<in> (\<Union>n \<in> set (map snd (nodesByRevision (rebuildGraph parsed this))). set (downRevisions n)).
          q \<notin> set (map fst (nodesByRevision (rebuildGraph parsed this)))}"
    by (simp add: set_missingParents rebuildGraph_nodes indexNodes_keys)
  have ex1: "js ''a'' \<in> set (heads (rebuildGraph
        [\<lparr>revision = js ''x'', downRevisions = [js ''a''], filePath = js ''1.py'', label = js ''x (1)''\<rparr>,
         \<lparr>revision = js ''x'', downRevisions = [], filePath = js ''2.py'', label = js ''x (2)''\<rparr>,
         \<lparr>revision = js ''a'', downRevisions = [], filePath = js ''3.py'', label = js ''a (3)''\<rparr>]
        newProvider))"
    by (simp add: graph_eval)
  have ex2: "childrenOf (childrenByParent (rebuildGraph
        [\<lparr>revision = js ''x'', downRevisions = [js ''a''], filePath = js ''1.py'', label = js ''x (1)''\<rparr>,
         \<lparr>revision = js ''x'', downRevisions = [], filePath = js ''2.py'', label = js ''x (2)''\<rparr>,
         \<lparr>revision = js ''a'', downRevisions = [], filePath = js ''3.py'', label = js ''a (3)''\<rparr>]
        newProvider)) (js ''a'') = [js ''x'']"
    by (simp add: graph_eval)
  from general hd set_bases[of parsed this] ms ex1 ex2 show ?thesis by blast
qed

theorem heads_with_children_witness:
  "set (childrenOf (childrenByParent (rebuildGraph
        [\<lparr>revision = js ''x'', downRevisions = [js ''a''], filePath = js ''1.py'', label = js ''x (1)''\<rparr>,
         \<lparr>revision = js ''x'', downRevisions = [], filePath = js ''2.py'', label = js ''x (2)''\<rparr>,
         \<lparr>revision = js ''a'', downRevisions = [], filePath = js ''3.py'', label = js ''a (3)''\<rparr>]
        newProvider)) (js ''a'')) = {js ''x''}
   \<and> heads (rebuildGraph
        [\<lparr>revision = js ''x'', downRevisions = [js ''a''], filePath = js ''1.py'', label = js ''x (1)''\<rparr>,
         \<lparr>revision = js ''x'', downRevisions = [], filePath = js ''2.py'', label = js ''x (2)''\<rparr>,
         \<lparr>revision = js ''a'', downRevisions = [], filePath = js ''3.py'', label = js ''a (3)''\<rparr>]
        newProvider) = [js ''a'', js ''x'']"
  using heads_with_children[of
        "[\<lparr>revision = js ''x'', downRevisions = [js ''a''], filePath = js ''1.py'', label = js ''x (1)''\<rparr>,
         \<lparr>revision = js ''x'', downRevisions = [], filePath = js ''2.py'', label = js ''x (2)''\<rparr>,
         \<lparr>revision = js ''a'', downRevisions = [], filePath = js ''3.py'', label = js ''a (3)''\<rparr>]"
        newProvider "js ''a''"]
  by (simp add: graph_eval)

text \<open>
  Claim C6 (determinism). The lists \<open>bases\<close>, \<open>heads\<close> and \<open>missingParents\<close> and the edge
  list depend on the node sequence only, not on the state the provider was in before the
  build, so that two builds from the same sequence agree on them, whatever happened in
  between; the three lists are sorted; and a second build on the state the first one left
  changes nothing.
\<close>

theorem rebuild_deterministic:
  "bases (rebuildGraph parsed this) = bases (rebuildGraph parsed that)
   \<and> heads (rebuildGraph parsed this) = heads (rebuildGraph parsed that)
   \<and> missingParents (rebuildGraph parsed this) = missingParents (rebuildGraph parsed that)
   \<and> edges (getGraphData (rebuildGraph parsed this)) = edges (getGraphData (rebuildGraph parsed that))
   \<and> sorted (bases (rebuildGraph parsed this))
   \<and> sorted (heads (rebuildGraph parsed this))
   \<and> sorted (missingParents (rebuildGraph parsed this))
   \<and> rebuildGraph parsed (rebuildGraph parsed this) = rebuildGraph parsed this"
proof -
  have e: "edges (getGraphData (rebuildGraph parsed this)) = edges (getGraphData (rebuildGraph parsed that))"
    by (simp add: getGraphData_def rebuildGraph_nodes)
  have again: "rebuildGraph parsed (rebuildGraph parsed this) = rebuildGraph parsed this"
    by (simp add: rebuildGraph_def Let_def split: prod.splits)
  show ?thesis
    using e again by (simp add: rebuildGraph_bases rebuildGraph_heads rebuildGraph_missing)
qed

section \<open>Claims about the declaration parser\<close>



text \<open>
  The restriction to one line is what the argument rests on. The pattern \<^verbatim>\<open>/\s+#.*$/\<close> has
  no \<^verbatim>\<open>m\<close> flag, so on a text of two lines, which the parser never passes to
  \<open>normalizeRhs\<close>, the comment of the first line is not removed while a second line follows
  it, and is removed by a second normalization.
\<close>

lemma normalizeRhs_two_lines:
  "normalizeRhs (js ''a #b\<newline> #c'') = js ''a #b''
   \<and> normalizeRhs (normalizeRhs (js ''a #b\<newline> #c'')) = js ''a''"
  by (simp add: parser_eval)

text \<open>
  Claim C5 (the rules for the parent value), as amended. \<open>asArrayDownRevision\<close> returns the
  empty list for \<^verbatim>\<open>null\<close>, and otherwise decides on the normalized value, first match
  wins: the text \<^verbatim>\<open>None\<close> or \<^verbatim>\<open>null\<close> in any case gives the empty list; one quoted literal
  spanning the whole value (a non-empty text without quote characters between two quote
  characters) gives the list of its inner text; a value that contains one or more quoted
  tokens, in brackets or not, gives these tokens from left to right, repetitions kept;
  a non-empty value of letters, digits and underscores gives the list of that value;
  anything else gives the empty list.
\<close>

theorem asArrayDownRevision_rules:
  "asArrayDownRevision None = []
   \<and> asArrayDownRevision (Some raw) =
       (let n = normalizeRhs raw
        in if isNoneText n then []
           else if isQuotedLiteral n then [butlast (tl n)]
           else if quotedTokens n \<noteq> [] then quotedTokens n
           else if isBareToken n then [n]
           else [])"
proof
  show "asArrayDownRevision None = []" by (simp add: asArrayDownRevision_def)
  show "asArrayDownRevision (Some raw) =
       (let n = normalizeRhs raw
        in if isNoneText n then []
           else if isQuotedLiteral n then [butlast (tl n)]
           else if quotedTokens n \<noteq> [] then quotedTokens n
           else if isBareToken n then [n]
           else [])"
    by (rule asArrayDownRevision_direct)
qed

theorem asArrayDownRevision_rules_witness:
  "asArrayDownRevision (Some (js ''('a1',  \"b2\", 'a1')  # merge'')) = [js ''a1'', js ''b2'', js ''a1'']
   \<and> quotedTokens (normalizeRhs (js ''('a1',  \"b2\", 'a1')  # merge'')) = [js ''a1'', js ''b2'', js ''a1'']
   \<and> asArrayDownRevision (Some (js ''NONE'')) = []
   \<and> asArrayDownRevision (Some (js ''\"a1\"'')) = [js ''a1'']
   \<and> asArrayDownRevision (Some (js ''a1_b'')) = [js ''a1_b'']
   \<and> asArrayDownRevision (Some (js ''{a1}'')) = []"
  using asArrayDownRevision_rules[of "js ''('a1',  \"b2\", 'a1')  # merge''"]
  by (simp add: direct_eval)

text \<open>
  The claim as stated keeps the third rule to sequence literals in parentheses or
  brackets and sends anything else to the empty list. The value \<^verbatim>\<open>"a", "b"\<close> is neither
  \<^verbatim>\<open>None\<close>, nor one quoted literal, nor such a sequence literal, nor a bare token; the
  code returns its two tokens.
\<close>

theorem asArrayDownRevision_rules_counterexample:
  "asArrayDownRevision (Some (js ''\"a\", \"b\"'')) = [js ''a'', js ''b'']
   \<and> \<not> isNoneText (normalizeRhs (js ''\"a\", \"b\"''))
   \<and> \<not> isQuotedLiteral (normalizeRhs (js ''\"a\", \"b\"''))
   \<and> \<not> isSequenceLiteral (normalizeRhs (js ''\"a\", \"b\"''))
   \<and> \<not> isBareToken (normalizeRhs (js ''\"a\", \"b\"''))"
  by (simp add: direct_eval isSequenceLiteral_def)

text \<open>
  Claim C3 (a node has a non-empty identifier), as amended. A blob without an identifier
  declaration yields \<^verbatim>\<open>null\<close>. When \<open>parseMigrationFile\<close> returns a node, its identifier is
  \<open>parseRevision\<close> of the captured right-hand side, and it is empty exactly when the
  normalized right-hand side is empty or consists of one or two quote characters only, as
  in \<^verbatim>\<open>revision = ""\<close>; for every other right-hand side the identifier is non-empty.
\<close>

theorem parsed_identifier:
  "(\<not> hasDeclaration (js ''revision'') content \<longrightarrow> parseMigrationFile baseOf content path = None)
   \<and> (parseMigrationFile baseOf content path = Some node \<longrightarrow>
        (\<exists>raw. js_match True revisionRe content = Some raw
           \<and> revision node = parseRevision raw
           \<and> (revision node = [] \<longleftrightarrow> onlyQuotes (normalizeRhs raw))))"
proof (intro conjI impI)
  assume "\<not> hasDeclaration (js ''revision'') content"
  then show "parseMigrationFile baseOf content path = None" by (simp add: parseMigrationFile_None)
next
  assume "parseMigrationFile baseOf content path = Some node"
  from parseMigrationFile_Some[OF this] obtain raw where
    "js_match True revisionRe content = Some raw" "revision node = parseRevision raw" by blast
  then show "\<exists>raw. js_match True revisionRe content = Some raw
           \<and> revision node = parseRevision raw
           \<and> (revision node = [] \<longleftrightarrow> onlyQuotes (normalizeRhs raw))"
    by (auto simp: parseRevision_empty)
qed

theorem parsed_identifier_witness:
  "parseMigrationFile (\<lambda>p. p) (js ''revision: str = \"a1\"  # first'') (js ''a1.py'')
     = Some \<lparr>revision = js ''a1'', downRevisions = [], filePath = js ''a1.py'', label = js ''a1 (a1.py)''\<rparr>
   \<and> js_match True revisionRe (js ''revision: str = \"a1\"  # first'') = Some (js ''\"a1\"  # first'')
   \<and> \<not> onlyQuotes (normalizeRhs (js ''\"a1\"  # first''))"
  using parsed_identifier[of "js ''revision: str = \"a1\"  # first''" "\<lambda>p. p" "js ''a1.py''"
      "\<lparr>revision = js ''a1'', downRevisions = [], filePath = js ''a1.py'', label = js ''a1 (a1.py)''\<rparr>"]
  by (simp add: parser_eval onlyQuotes_def)

text \<open>
  The claim as stated fails for a file whose identifier declaration is
  \<^verbatim>\<open>revision = ""\<close>: the parser returns a node, and its identifier is the empty string.
\<close>

theorem parsed_identifier_counterexample:
  "parseMigrationFile (\<lambda>p. p) (js ''revision = \"\"'') (js ''e.py'')
     = Some \<lparr>revision = [], downRevisions = [], filePath = js ''e.py'', label = js '' (e.py)''\<rparr>"
  by (simp add: parser_eval)

text \<open>
  Claim C9 (the parser never raises), as amended. \<open>parseMigrationFile\<close> is a total function
  whose only results are \<^verbatim>\<open>null\<close> and a node. The one value it reads that could be
  \<^verbatim>\<open>undefined\<close> is the capture \<^verbatim>\<open>revMatch[1]\<close>, which \<open>parseRevision\<close> passes to
  \<^verbatim>\<open>String.prototype.replace\<close>: wherever one of the two declaration patterns matches, its
  group has taken part in the match, so the capture is a string. The parser returns
  \<^verbatim>\<open>null\<close> exactly when the text has no place, between a line start and a line end, where
  the identifier-declaration pattern matches; the white space of the pattern may contain
  line breaks, so such a place may span several lines. In particular a text with a line
  that matches the pattern never yields \<^verbatim>\<open>null\<close>. For a node, the parent list is empty
  exactly when there is no parent declaration, or the normalized parent value is \<^verbatim>\<open>None\<close>
  or \<^verbatim>\<open>null\<close> in any case, or it is a value that no rule can read.
\<close>

theorem parser_never_raises:
  "(js_test True revisionRe content \<longleftrightarrow> js_match True revisionRe content \<noteq> None)
   \<and> (js_test True downRevisionRe content \<longleftrightarrow> js_match True downRevisionRe content \<noteq> None)
   \<and> (parseMigrationFile baseOf content path = None \<longleftrightarrow> \<not> hasDeclaration (js ''revision'') content)
   \<and> (list_ex (js_test True revisionRe) (linesOf content) \<longrightarrow>
        parseMigrationFile baseOf content path \<noteq> None)
   \<and> (parseMigrationFile baseOf content path = Some node \<longrightarrow>
        (downRevisions node = [] \<longleftrightarrow>
           (\<not> hasDeclaration (js ''down_revision'') content
            \<or> (\<exists>raw. js_match True downRevisionRe content = Some raw
                  \<and> (isNoneText (normalizeRhs raw) \<or> unreadable (normalizeRhs raw))))))"
proof (intro conjI impI)
  show "js_test True revisionRe content \<longleftrightarrow> js_match True revisionRe content \<noteq> None"
    unfolding revisionRe_def by (rule declRe_captures)
next
  show "js_test True downRevisionRe content \<longleftrightarrow> js_match True downRevisionRe content \<noteq> None"
    unfolding downRevisionRe_def by (rule declRe_captures)
next
  show "parseMigrationFile baseOf content path = None \<longleftrightarrow> \<not> hasDeclaration (js ''revision'') content"
    by (rule parseMigrationFile_None)
next
  assume "list_ex (js_test True revisionRe) (linesOf content)"
  then obtain l where "l \<in> set (linesOf content)" "hasDeclaration (js ''revision'') l"
    by (auto simp: list_ex_iff revisionRe_def js_test_declRe)
  then have "hasDeclaration (js ''revision'') content" by (rule hasDeclaration_line)
  then show "parseMigrationFile baseOf content path \<noteq> None" by (simp add: parseMigrationFile_None)
next
  assume "parseMigrationFile baseOf content path = Some node"
  then show "downRevisions node = [] \<longleftrightarrow>
           (\<not> hasDeclaration (js ''down_revision'') content
            \<or> (\<exists>raw. js_match True downRevisionRe content = Some raw
                  \<and> (isNoneText (normalizeRhs raw) \<or> unreadable (normalizeRhs raw))))"
    by (rule parents_empty_iff)
qed

theorem parser_never_raises_witness:
  "parseMigrationFile (\<lambda>p. p) (js ''import os\<newline>x = 1'') (js ''n.py'') = None
   \<and> \<not> hasDeclaration (js ''revision'') (js ''import os\<newline>x = 1'')
   \<and> list_ex (js_test True revisionRe) (linesOf (js ''revision = 'c3'\<newline>down_revision = {a1}''))
   \<and> parseMigrationFile (\<lambda>p. p) (js ''revision = 'c3'\<newline>down_revision = {a1}'') (js ''c.py'')
       = Some \<lparr>revision = js ''c3'', downRevisions = [], filePath = js ''c.py'', label = js ''c3 (c.py)''\<rparr>
   \<and> js_match True downRevisionRe (js ''revision = 'c3'\<newline>down_revision = {a1}'') = Some (js ''{a1}'')
   \<and> unreadable (normalizeRhs (js ''{a1}''))"
  using parser_never_raises[of "js ''import os\<newline>x = 1''" "\<lambda>p. p" "js ''n.py''"]
    parser_never_raises[of "js ''revision = 'c3'\<newline>down_revision = {a1}''" "\<lambda>p. p" "js ''c.py''"
      "\<lparr>revision = js ''c3'', downRevisions = [], filePath = js ''c.py'', label = js ''c3 (c.py)''\<rparr>"]
  by (simp add: parser_eval linesOf_def unreadable_def isNoneText_def isQuotedLiteral_def isBareToken_def tokenAhead_def)

text \<open>
  The claim as stated (\<^verbatim>\<open>null\<close> exactly when no line matches the pattern) fails for a
  declaration written over four lines, \<^verbatim>\<open>revision:\<close>, \<^verbatim>\<open>str\<close>, \<^verbatim>\<open>=\<close>, \<^verbatim>\<open>"x"\<close>: none of the
  four lines matches the pattern, and the parser returns the node \<^verbatim>\<open>x\<close>.
\<close>

theorem parser_never_raises_counterexample:
  "parseMigrationFile (\<lambda>p. p) (js ''revision:\<newline>str\<newline>=\<newline>\"x\"'') (js ''m.py'')
     = Some \<lparr>revision = js ''x'', downRevisions = [], filePath = js ''m.py'', label = js ''x (m.py)''\<rparr>
   \<and> linesOf (js ''revision:\<newline>str\<newline>=\<newline>\"x\"'') = [js ''revision:'', js ''str'', js ''='', js ''\"x\"'']
   \<and> filter (js_test True revisionRe) (linesOf (js ''revision:\<newline>str\<newline>=\<newline>\"x\"'')) = []"
  by (simp add: parser_eval linesOf_def)

end
